theory Spec2Isabelle
  imports Main "HOL-Library.Word" "HOL-Library.Monad_Syntax"
begin

unbundle bit_operations_syntax

section \<open>Machine model\<close>

text \<open>
  The headers are C for GCC on an LP64 target: \<open>size_t\<close> and \<open>uintptr_t\<close> are 64-bit
  words, \<open>uint32_t\<close> is a 32-bit word, \<open>unsigned char\<close> an 8-bit word and \<open>int\<close> a 32-bit
  two's complement value.  Memory is a flat array of bytes indexed by address.  A function
  that can abort (a failed \<open>assert\<close>) or whose behaviour C leaves undefined returns
  \<open>None\<close> there.
\<close>

type_synonym size_t = "64 word"
type_synonym uintptr = "64 word"
type_synonym uint32 = "32 word"
type_synonym byte = "8 word"
type_synonym memory = "uintptr \<Rightarrow> byte"

text \<open>The bytes of memory at addresses \<open>p, p + 1, ..., p + n - 1\<close>.\<close>

definition load :: "memory \<Rightarrow> uintptr \<Rightarrow> nat \<Rightarrow> byte list" where
  "load m p n = map (\<lambda>i. m (p + of_nat i)) [0..<n]"

subsection \<open>mxutil.h: the min and max macros\<close>

text \<open>\<open>#define min(a, b) ((a) < (b) ? (a) : (b))\<close> and
  \<open>#define max(a, b) ((a) > (b) ? (a) : (b))\<close>.\<close>

definition min_macro :: "'a::linorder \<Rightarrow> 'a \<Rightarrow> 'a" where
  "min_macro arg1 arg2 = (if arg1 < arg2 then arg1 else arg2)"

definition max_macro :: "'a::linorder \<Rightarrow> 'a \<Rightarrow> 'a" where
  "max_macro arg1 arg2 = (if arg1 > arg2 then arg1 else arg2)"

subsection \<open>The C library routines the headers call\<close>

text \<open>
  \<open>memcmp\<close> compares the two ranges as unsigned bytes.  The C standard fixes only the
  sign of a non-zero result; the model returns the difference of the first pair of bytes
  that differ.
\<close>

fun memcmp_bytes :: "byte list \<Rightarrow> byte list \<Rightarrow> int" where
  "memcmp_bytes (x # xs) (y # ys) =
     (if x = y then memcmp_bytes xs ys else uint x - uint y)"
| "memcmp_bytes _ _ = 0"

definition memcmp :: "memory \<Rightarrow> uintptr \<Rightarrow> uintptr \<Rightarrow> size_t \<Rightarrow> int" where
  "memcmp m s1 s2 n = memcmp_bytes (load m s1 (unat n)) (load m s2 (unat n))"

text \<open>
  \<open>memcpy\<close> and \<open>memset\<close> return the memory after the call.  The address \<open>a\<close> lies in
  the destination range exactly when \<open>a - dest < n\<close> in 64-bit arithmetic.  \<open>memcpy\<close>
  reads every source byte from the memory before the call.
\<close>

definition memcpy :: "memory \<Rightarrow> uintptr \<Rightarrow> uintptr \<Rightarrow> size_t \<Rightarrow> memory" where
  "memcpy m dest src n = (\<lambda>a. if a - dest < n then m (src + (a - dest)) else m a)"

definition memset :: "memory \<Rightarrow> uintptr \<Rightarrow> byte \<Rightarrow> size_t \<Rightarrow> memory" where
  "memset m dest c n = (\<lambda>a. if a - dest < n then c else m a)"

section \<open>mxstr.h: string references\<close>

record mxstr_t =
  ptr :: uintptr
  len :: size_t

definition mxstr :: "uintptr \<Rightarrow> size_t \<Rightarrow> mxstr_t" where
  "mxstr str n = \<lparr>ptr = str, len = n\<rparr>"

definition mxstr_empty :: "mxstr_t \<Rightarrow> bool" where
  "mxstr_empty str = (len str = 0)"

text \<open>The bytes a string reference denotes.\<close>

definition str_bytes :: "memory \<Rightarrow> mxstr_t \<Rightarrow> byte list" where
  "str_bytes m str = load m (ptr str) (unat (len str))"

subsection \<open>Substring\<close>

text \<open>\<open>mxstr_substr_offset\<close>: the pointer difference, \<open>None\<close> when the assertion
  \<open>idx <= str.len\<close> fails.\<close>

definition mxstr_substr_offset :: "mxstr_t \<Rightarrow> mxstr_t \<Rightarrow> size_t option" where
  "mxstr_substr_offset str substr =
     (let idx = ptr substr - ptr str
      in if idx \<le> len str then Some idx else None)"

definition mxstr_prefix :: "mxstr_t \<Rightarrow> mxstr_t \<Rightarrow> mxstr_t option" where
  "mxstr_prefix str substr =
     do { idx \<leftarrow> mxstr_substr_offset str substr;
          Some \<lparr>ptr = ptr str, len = idx\<rparr> }"

text \<open>\<open>mxstr_substr\<close> returns the flag and the value stored through \<open>substr\<close>.\<close>

definition mxstr_substr :: "mxstr_t \<Rightarrow> size_t \<Rightarrow> size_t \<Rightarrow> bool \<times> mxstr_t" where
  "mxstr_substr str start end0 =
     (let ok = True;
          (end1, ok) = (if end0 < start then (start, False) else (end0, ok));
          (start1, ok) = (if start > len str then (len str, False) else (start, ok));
          (end2, ok) = (if end1 > len str then (len str, False) else (end1, ok))
      in (ok, \<lparr>ptr = ptr str + start1, len = end2 - start1\<rparr>))"

subsection \<open>Comparison\<close>

text \<open>The assignment \<open>cmp = str1.len - str2.len\<close> converts a \<open>size_t\<close> difference to
  \<open>int\<close>: GCC keeps the low 32 bits and reads them as two's complement.\<close>

definition mxstr_cmp :: "memory \<Rightarrow> mxstr_t \<Rightarrow> mxstr_t \<Rightarrow> int" where
  "mxstr_cmp m str1 str2 =
     (let cmp = memcmp m (ptr str1) (ptr str2) (min_macro (len str1) (len str2))
      in if cmp = 0 then sint (ucast (len str1 - len str2) :: 32 word) else cmp)"

subsection \<open>Read\<close>

text \<open>\<open>mxstr_getchar\<close> takes the current value of \<open>*c\<close> and returns the flag and the
  value of \<open>*c\<close> after the call.\<close>

definition mxstr_getchar :: "memory \<Rightarrow> mxstr_t \<Rightarrow> byte \<Rightarrow> bool \<times> byte" where
  "mxstr_getchar m str c =
     (let ok = (len str > 0)
      in if ok then (ok, m (ptr str)) else (ok, c))"

text \<open>\<open>mxstr_consume\<close> returns the count and the updated \<open>*str\<close>.\<close>

definition mxstr_consume :: "mxstr_t \<Rightarrow> size_t \<Rightarrow> size_t \<times> mxstr_t" where
  "mxstr_consume str n =
     (let size = min_macro (len str) n
      in (size, \<lparr>ptr = ptr str + size, len = len str - size\<rparr>))"

text \<open>
  The macro \<open>mxstr_consume_char(str_, c_, match_)\<close> expands to
  \<open>mxstr_getchar(*(str_), (c_)) && (match_) && mxstr_consume((str_), 1) == 1\<close>.
  The expression \<open>match_\<close> reads the auxiliary variable, so it is a predicate on its
  value.  The result is the flag, the updated string and the updated variable; \<open>&&\<close>
  evaluates left to right and stops at the first false operand.
\<close>

definition mxstr_consume_char ::
  "memory \<Rightarrow> mxstr_t \<Rightarrow> byte \<Rightarrow> (byte \<Rightarrow> bool) \<Rightarrow> bool \<times> mxstr_t \<times> byte" where
  "mxstr_consume_char m str c match =
     (let (ok, c') = mxstr_getchar m str c
      in if \<not> ok then (False, str, c')
         else if \<not> match c' then (False, str, c')
         else let (n, str') = mxstr_consume str 1 in (n = 1, str', c'))"

text \<open>\<open>mxstr_consume_str\<close> returns the flag and the updated \<open>*str\<close>.\<close>

definition mxstr_consume_str :: "memory \<Rightarrow> mxstr_t \<Rightarrow> mxstr_t \<Rightarrow> bool \<times> mxstr_t" where
  "mxstr_consume_str m str prefix =
     (let (ok, substr) = mxstr_substr str 0 (len prefix)
      in if \<not> ok then (False, str)
         else if mxstr_cmp m substr prefix \<noteq> 0 then (False, str)
         else let (n, str') = mxstr_consume str (len prefix) in (n = len prefix, str'))"

subsection \<open>Output\<close>

text \<open>The writers return their result, the updated destination and the memory.\<close>

definition mxstr_write :: "memory \<Rightarrow> mxstr_t \<Rightarrow> mxstr_t \<Rightarrow> size_t \<times> mxstr_t \<times> memory" where
  "mxstr_write m dest src =
     (let size = min_macro (len dest) (len src);
          m' = memcpy m (ptr dest) (ptr src) size
      in (size, \<lparr>ptr = ptr dest + size, len = len dest - size\<rparr>, m'))"

definition mxstr_write_chars ::
  "memory \<Rightarrow> mxstr_t \<Rightarrow> byte \<Rightarrow> size_t \<Rightarrow> size_t \<times> mxstr_t \<times> memory" where
  "mxstr_write_chars m dest c n =
     (let size = min_macro (len dest) n;
          m' = memset m (ptr dest) c size
      in (size, \<lparr>ptr = ptr dest + size, len = len dest - size\<rparr>, m'))"

definition mxstr_putc :: "memory \<Rightarrow> mxstr_t \<Rightarrow> byte \<Rightarrow> bool \<times> mxstr_t \<times> memory" where
  "mxstr_putc m str c =
     (let ok = \<not> mxstr_empty str
      in if ok then (ok, snd (mxstr_consume str 1), m(ptr str := c))
         else (ok, str, m))"

section \<open>mxutil.h\<close>

text \<open>
  \<open>__builtin_clz\<close> counts the zero bits above the highest set bit of a 32-bit value,
  starting at bit 31.  GCC leaves its result at 0 undefined; \<open>clz0\<close> is the value the
  target yields there.
\<close>

fun leading_zeros :: "nat \<Rightarrow> uint32 \<Rightarrow> nat" where
  "leading_zeros 0 x = 0"
| "leading_zeros (Suc i) x = (if bit x i then 0 else Suc (leading_zeros i x))"

definition builtin_clz :: "int \<Rightarrow> uint32 \<Rightarrow> int" where
  "builtin_clz clz0 x = (if x = 0 then clz0 else int (leading_zeros 32 x))"

text \<open>
  The expression \<open>1 << n\<close> on \<open>int\<close>, converted to the \<open>uint32_t\<close> return type.  A
  negative count or a count of 32 or more is undefined; GCC defines \<open>1 << 31\<close> as
  \<open>INT_MIN\<close>, which converts to \<open>0x80000000\<close>.
\<close>

definition shl_one :: "int \<Rightarrow> uint32 option" where
  "shl_one n = (if 0 \<le> n \<and> n < 32 then Some (push_bit (nat n) 1) else None)"

definition mxutil_size_p2 :: "int \<Rightarrow> uint32 \<Rightarrow> uint32 option" where
  "mxutil_size_p2 clz0 v = shl_one (32 - builtin_clz clz0 v)"

subsection \<open>The allocator\<close>

text \<open>
  The heap is the memory, the table of live blocks (base address to size) and the
  addresses the system allocator is going to hand out, in order; a 0 entry, or an empty
  list, is a failed allocation.  \<open>realloc\<close> of a null pointer allocates; of a live block
  it moves the block, keeping the bytes up to the smaller of the two sizes; of any other
  pointer, or with size 0 (which mxutil.h forbids), it is undefined.
\<close>

record heap =
  mem :: memory
  blocks :: "uintptr \<rightharpoonup> size_t"
  pool :: "uintptr list"

definition realloc :: "heap \<Rightarrow> uintptr \<Rightarrow> size_t \<Rightarrow> (uintptr \<times> heap) option" where
  "realloc h data sz =
     (if sz = 0 then None
      else if data \<noteq> 0 \<and> blocks h data = None then None
      else case pool h of
             [] \<Rightarrow> Some (0, h)
           | p # ps \<Rightarrow>
               if p = 0 then Some (0, h\<lparr>pool := ps\<rparr>)
               else case (if data = 0 then None else blocks h data) of
                      None \<Rightarrow>
                        (let table = (blocks h)(p := Some sz)
                         in Some (p, h\<lparr>blocks := table, pool := ps\<rparr>))
                    | Some old \<Rightarrow>
                        (let m' = memcpy (mem h) p data (min_macro old sz);
                             table = ((blocks h)(data := None))(p := Some sz)
                         in Some (p, h\<lparr>mem := m', blocks := table, pool := ps\<rparr>)))"

definition free :: "heap \<Rightarrow> uintptr \<Rightarrow> heap option" where
  "free h p =
     (if p = 0 then Some h
      else case blocks h p of
             None \<Rightarrow> None
           | Some n \<Rightarrow> Some (h\<lparr>blocks := (blocks h)(p := None)\<rparr>))"

text \<open>\<open>mxutil_realloc\<close>: \<open>None\<close> when \<open>assert(ptr != NULL)\<close> fails.\<close>

definition mxutil_realloc :: "heap \<Rightarrow> uintptr \<Rightarrow> size_t \<Rightarrow> (uintptr \<times> heap) option" where
  "mxutil_realloc h data sz =
     do { (p, h') \<leftarrow> realloc h data sz;
          if p \<noteq> 0 then Some (p, h') else None }"

section \<open>mxstr.h: buffers\<close>

record mxbuf_t =
  buf :: mxstr_t
  available :: mxstr_t
  init :: mxstr_t

definition mxbuf_create :: "uintptr \<Rightarrow> size_t \<Rightarrow> mxbuf_t" where
  "mxbuf_create p n =
     (let str = mxstr p n in \<lparr>buf = str, available = str, init = str\<rparr>)"

definition mxbuf_reset :: "mxbuf_t \<Rightarrow> mxbuf_t" where
  "mxbuf_reset buffer = buffer\<lparr>available := buf buffer\<rparr>"

definition mxbuf_free :: "mxbuf_t \<Rightarrow> heap \<Rightarrow> (mxbuf_t \<times> heap) option" where
  "mxbuf_free buffer h =
     do { h' \<leftarrow> (if ptr (buf buffer) \<noteq> ptr (init buffer)
                 then free h (ptr (buf buffer)) else Some h);
          Some (buffer\<lparr>buf := init buffer, available := init buffer\<rparr>, h') }"

definition mxbuf_trim :: "mxbuf_t \<Rightarrow> heap \<Rightarrow> (mxbuf_t \<times> heap) option" where
  "mxbuf_trim buffer h =
     (if ptr (buf buffer) \<noteq> ptr (init buffer) then
        do { n \<leftarrow> mxstr_substr_offset (buf buffer) (available buffer);
             (q, h') \<leftarrow> mxutil_realloc h (ptr (buf buffer)) n;
             let str = mxstr q n;
             Some (buffer\<lparr>buf := str, available := snd (mxstr_substr str n n)\<rparr>, h') }
      else Some (buffer, h))"

text \<open>
  \<open>mxbuf_require\<close>: \<open>mxutil_size_p2\<close> takes a \<open>uint32_t\<close>, so both \<open>size_t\<close> arguments
  are cut to their low 32 bits; the \<open>uint32_t\<close> maximum is widened to \<open>size_t\<close>.
\<close>

definition mxbuf_require :: "int \<Rightarrow> mxbuf_t \<Rightarrow> heap \<Rightarrow> size_t \<Rightarrow> (mxbuf_t \<times> heap) option" where
  "mxbuf_require clz0 buffer h sz =
     (if len (available buffer) < sz then
        do { a \<leftarrow> mxutil_size_p2 clz0 (ucast (len (buf buffer)));
             b \<leftarrow> mxutil_size_p2 clz0 (ucast sz);
             let new_size = (ucast (max_macro a b) :: size_t);
             n \<leftarrow> mxstr_substr_offset (buf buffer) (available buffer);
             let p = (if ptr (buf buffer) \<noteq> ptr (init buffer) then ptr (buf buffer) else 0);
             (q, h') \<leftarrow> mxutil_realloc h p new_size;
             let str = mxstr q new_size;
             Some (buffer\<lparr>buf := str, available := snd (mxstr_substr str n new_size)\<rparr>, h') }
      else Some (buffer, h))"

definition mxbuf_write ::
  "int \<Rightarrow> mxbuf_t \<Rightarrow> heap \<Rightarrow> mxstr_t \<Rightarrow> (size_t \<times> mxbuf_t \<times> heap) option" where
  "mxbuf_write clz0 buffer h str =
     do { (b, h') \<leftarrow> mxbuf_require clz0 buffer h (len str);
          let (n, av, m') = mxstr_write (mem h') (available b) str;
          Some (n, b\<lparr>available := av\<rparr>, h'\<lparr>mem := m'\<rparr>) }"

definition mxbuf_putc ::
  "int \<Rightarrow> mxbuf_t \<Rightarrow> heap \<Rightarrow> byte \<Rightarrow> (bool \<times> mxbuf_t \<times> heap) option" where
  "mxbuf_putc clz0 buffer h c =
     do { (b, h') \<leftarrow> mxbuf_require clz0 buffer h 1;
          let (ok, av, m') = mxstr_putc (mem h') (available b) c;
          Some (ok, b\<lparr>available := av\<rparr>, h'\<lparr>mem := m'\<rparr>) }"

text \<open>A sequence of \<open>(void)mxbuf_putc(buffer, x)\<close> calls: the results are discarded, and
  each \<open>uint32_t\<close> argument is converted to \<open>unsigned char\<close>.\<close>

fun putc_all :: "int \<Rightarrow> mxbuf_t \<Rightarrow> heap \<Rightarrow> uint32 list \<Rightarrow> (mxbuf_t \<times> heap) option" where
  "putc_all clz0 buffer h [] = Some (buffer, h)"
| "putc_all clz0 buffer h (x # xs) =
     do { (ok, b, h') \<leftarrow> mxbuf_putc clz0 buffer h (ucast x);
          putc_all clz0 b h' xs }"

definition mxbuf_put_utf8 ::
  "int \<Rightarrow> mxbuf_t \<Rightarrow> heap \<Rightarrow> uint32 \<Rightarrow> (bool \<times> mxbuf_t \<times> heap) option" where
  "mxbuf_put_utf8 clz0 buffer h c =
     (if c < 0x80 then
        do { (b, h') \<leftarrow> putc_all clz0 buffer h [c]; Some (True, b, h') }
      else if c < 0x800 then
        do { (b, h') \<leftarrow> putc_all clz0 buffer h
               [0xc0 + (drop_bit 6 c AND 0x1f),
                0x80 + (c AND 0x3f)];
             Some (True, b, h') }
      else if c < 0x10000 then
        do { (b, h') \<leftarrow> putc_all clz0 buffer h
               [0xe0 + (drop_bit 12 c AND 0xf),
                0x80 + (drop_bit 6 c AND 0x3f),
                0x80 + (c AND 0x3f)];
             Some (True, b, h') }
      else if c < 0x110000 then
        do { (b, h') \<leftarrow> putc_all clz0 buffer h
               [0xf0 + (drop_bit 18 c AND 0x7),
                0x80 + (drop_bit 12 c AND 0x3f),
                0x80 + (drop_bit 6 c AND 0x3f),
                0x80 + (c AND 0x3f)];
             Some (True, b, h') }
      else Some (False, buffer, h))"

definition mxbuf_write_chars ::
  "int \<Rightarrow> mxbuf_t \<Rightarrow> heap \<Rightarrow> byte \<Rightarrow> size_t \<Rightarrow> (size_t \<times> mxbuf_t \<times> heap) option" where
  "mxbuf_write_chars clz0 buffer h c n =
     do { (b, h') \<leftarrow> mxbuf_require clz0 buffer h n;
          let (k, av, m') = mxstr_write_chars (mem h') (available b) c n;
          Some (k, b\<lparr>available := av\<rparr>, h'\<lparr>mem := m'\<rparr>) }"

definition mxbuf_str :: "mxbuf_t \<Rightarrow> mxstr_t option" where
  "mxbuf_str buffer = mxstr_prefix (buf buffer) (available buffer)"

text \<open>The committed contents of a buffer: the bytes of \<open>mxbuf_str\<close>.\<close>

definition contents :: "mxbuf_t \<Rightarrow> heap \<Rightarrow> byte list option" where
  "contents buffer h = map_option (str_bytes (mem h)) (mxbuf_str buffer)"

section \<open>Buffer states\<close>

text \<open>
  The number of bytes written so far, the invariant of the three views of a buffer (the
  available view is a suffix of the storage), and the link between a buffer and the
  allocator: storage that is not the caller's initial range is a live block of the
  buffer's size.
\<close>

definition written :: "mxbuf_t \<Rightarrow> size_t" where
  "written b = len (buf b) - len (available b)"

definition buf_inv :: "mxbuf_t \<Rightarrow> bool" where
  "buf_inv b \<longleftrightarrow>
     len (available b) \<le> len (buf b) \<and>
     ptr (available b) = ptr (buf b) + (len (buf b) - len (available b))"

definition owned :: "mxbuf_t \<Rightarrow> heap \<Rightarrow> bool" where
  "owned b h \<longleftrightarrow>
     ptr (buf b) = ptr (init b) \<or>
     (ptr (buf b) \<noteq> 0 \<and> blocks h (ptr (buf b)) = Some (len (buf b)))"

definition growable :: "int \<Rightarrow> mxbuf_t \<Rightarrow> bool" where
  "growable clz0 b \<longleftrightarrow>
     (if len (buf b) = 0 then 1 \<le> clz0 \<and> clz0 \<le> 32 else len (buf b) < 0x80000000)"

definition grown_heap :: "mxbuf_t \<Rightarrow> heap \<Rightarrow> uintptr \<Rightarrow> size_t \<Rightarrow> uintptr list \<Rightarrow> heap" where
  "grown_heap b h q n qs =
     (if ptr (buf b) = ptr (init b)
      then h\<lparr>blocks := (blocks h)(q := Some n), pool := qs\<rparr>
      else h\<lparr>mem := memcpy (mem h) q (ptr (buf b)) (min_macro (len (buf b)) n),
             blocks := ((blocks h)(ptr (buf b) := None))(q := Some n), pool := qs\<rparr>)"

text \<open>
  \<open>roomy\<close> bounds the capacity so that growing twice stays within what
  \<open>mxutil_size_p2\<close> can compute; \<open>ready clz0 k b h\<close> says that \<open>k\<close> more bytes can be
  written one at a time: either they fit, or the buffer can grow without losing data (its
  storage is its own, or it has none yet) and the allocator's next \<open>k\<close> answers are
  usable addresses.
\<close>

definition roomy :: "int \<Rightarrow> mxbuf_t \<Rightarrow> bool" where
  "roomy clz0 b \<longleftrightarrow>
     (if len (buf b) = 0 then 1 \<le> clz0 \<and> clz0 \<le> 32 else len (buf b) \<le> 0x40000000)"

definition ready :: "int \<Rightarrow> nat \<Rightarrow> mxbuf_t \<Rightarrow> heap \<Rightarrow> bool" where
  "ready clz0 k b h \<longleftrightarrow>
     buf_inv b \<and> owned b h \<and>
     (k \<le> unat (len (available b)) \<or>
      (roomy clz0 b \<and> (ptr (buf b) \<noteq> ptr (init b) \<or> len (buf b) = 0) \<and>
       k \<le> length (pool h) \<and>
       list_all (\<lambda>q. q \<noteq> 0 \<and> q \<noteq> ptr (init b)) (take k (pool h))))"

text \<open>The UTF-8 encoding of a code point below \<open>0x110000\<close>, by division (RFC 3629).\<close>

definition utf8_encoding :: "nat \<Rightarrow> byte list" where
  "utf8_encoding c =
     (if c < 0x80 then [of_nat c]
      else if c < 0x800 then
        [of_nat (0xC0 + c div 0x40), of_nat (0x80 + c mod 0x40)]
      else if c < 0x10000 then
        [of_nat (0xE0 + c div 0x1000), of_nat (0x80 + c div 0x40 mod 0x40),
         of_nat (0x80 + c mod 0x40)]
      else
        [of_nat (0xF0 + c div 0x40000), of_nat (0x80 + c div 0x1000 mod 0x40),
         of_nat (0x80 + c div 0x40 mod 0x40), of_nat (0x80 + c mod 0x40)])"

text \<open>The allocator's next answer is a usable address.\<close>

definition alloc_ok :: "heap \<Rightarrow> bool" where
  "alloc_ok h = (case pool h of [] \<Rightarrow> False | q # qs \<Rightarrow> q \<noteq> 0)"

text \<open>
  The operations of the buffer interface as a step function on a buffer and its heap;
  a step that aborts, or whose behaviour is undefined, has no successor.
\<close>

datatype buf_op =
    Create uintptr size_t
  | Reset
  | Free
  | Trim
  | Require size_t
  | Write mxstr_t
  | Putc byte
  | Put_utf8 uint32
  | Write_chars byte size_t

fun exec :: "int \<Rightarrow> buf_op \<Rightarrow> mxbuf_t \<times> heap \<Rightarrow> (mxbuf_t \<times> heap) option" where
  "exec clz0 (Create p n) (b, h) = Some (mxbuf_create p n, h)"
| "exec clz0 Reset (b, h) = Some (mxbuf_reset b, h)"
| "exec clz0 Free (b, h) = mxbuf_free b h"
| "exec clz0 Trim (b, h) = mxbuf_trim b h"
| "exec clz0 (Require n) (b, h) = mxbuf_require clz0 b h n"
| "exec clz0 (Write str) (b, h) = map_option snd (mxbuf_write clz0 b h str)"
| "exec clz0 (Putc c) (b, h) = map_option snd (mxbuf_putc clz0 b h c)"
| "exec clz0 (Put_utf8 c) (b, h) = map_option snd (mxbuf_put_utf8 clz0 b h c)"
| "exec clz0 (Write_chars c n) (b, h) = map_option snd (mxbuf_write_chars clz0 b h c n)"

text \<open>A sequence of operations, stopping at the first that has no successor.\<close>

fun exec_all :: "int \<Rightarrow> buf_op list \<Rightarrow> mxbuf_t \<times> heap \<Rightarrow> (mxbuf_t \<times> heap) option" where
  "exec_all clz0 [] s = Some s"
| "exec_all clz0 (op # ops) s =
     (case exec clz0 op s of None \<Rightarrow> None | Some s' \<Rightarrow> exec_all clz0 ops s')"

section \<open>The growth policy as the specification words it\<close>

text \<open>
  The next power of two at or above \<open>n\<close>, found by doubling from 1, and the capacity the
  specification prescribes for a buffer of the given capacity with \<open>written0\<close> bytes
  written when \<open>additional\<close> more are required.
\<close>

fun pow2_search :: "nat \<Rightarrow> nat \<Rightarrow> nat \<Rightarrow> nat" where
  "pow2_search 0 k n = k"
| "pow2_search (Suc fuel) k n = (if n \<le> k then k else pow2_search fuel (2 * k) n)"

definition spec_next_pow2 :: "nat \<Rightarrow> nat" where
  "spec_next_pow2 n = pow2_search n 1 n"

definition spec_growth_capacity :: "nat \<Rightarrow> nat \<Rightarrow> nat \<Rightarrow> nat" where
  "spec_growth_capacity capacity written0 additional =
     max (spec_next_pow2 capacity) (spec_next_pow2 (written0 + additional))"

section \<open>Sample data\<close>

text \<open>A memory whose byte at address \<open>a\<close> is \<open>a mod 256\<close>.\<close>

definition sample_memory :: memory where
  "sample_memory a = ucast a"

text \<open>
  A heap with that memory, no live block, and twelve addresses to hand out; a buffer that
  owns a 4-byte block holding 3 bytes, with its heap; a 4 GiB + 4 byte caller-supplied
  range.
\<close>

definition sample_heap :: heap where
  "sample_heap = \<lparr>mem = sample_memory, blocks = Map.empty,
     pool = [0x10000, 0x20000, 0x30000, 0x40000, 0x50000, 0x60000, 0x70000, 0x80000,
             0x90000, 0xA0000, 0xB0000, 0xC0000]\<rparr>"

definition sample_buffer :: mxbuf_t where
  "sample_buffer = \<lparr>buf = \<lparr>ptr = 0x10000, len = 4\<rparr>,
     available = \<lparr>ptr = 0x10003, len = 1\<rparr>, init = \<lparr>ptr = 0, len = 0\<rparr>\<rparr>"

definition sample_buffer_heap :: heap where
  "sample_buffer_heap = \<lparr>mem = sample_memory, blocks = [0x10000 \<mapsto> 4],
     pool = [0x20000, 0x30000, 0x40000, 0x50000]\<rparr>"

definition huge_range :: mxbuf_t where
  "huge_range = mxbuf_create 0x1000 0x100000004"

section \<open>Arithmetic of the growth policy\<close>

lemma bit_top_nat: "n < 2 ^ Suc i \<Longrightarrow> bit (n::nat) i \<longleftrightarrow> 2 ^ i \<le> n"
proof -
  assume a: "n < 2 ^ Suc i"
  then have "n div 2 ^ i < 2"
    by (simp add: less_mult_imp_div_less mult.commute)
  then have "n div 2 ^ i = 0 \<or> n div 2 ^ i = 1" by linarith
  then show ?thesis
  proof
    assume z: "n div 2 ^ i = 0"
    then have "n < 2 ^ i" by (simp add: div_eq_0_iff)
    with z show ?thesis by (simp add: bit_iff_odd)
  next
    assume o: "n div 2 ^ i = 1"
    then have "\<not> n < 2 ^ i" by (metis div_less zero_neq_one)
    with o show ?thesis by (simp add: bit_iff_odd)
  qed
qed

lemma leading_zeros_bounds:
  "unat x < 2 ^ i \<Longrightarrow> x \<noteq> 0 \<Longrightarrow>
     leading_zeros i x < i \<and> 2 ^ (i - 1 - leading_zeros i x) \<le> unat x
     \<and> unat x < 2 ^ (i - leading_zeros i x)"
proof (induction i)
  case 0
  then show ?case by (simp add: unat_eq_0)
next
  case (Suc i)
  have b: "bit x i \<longleftrightarrow> 2 ^ i \<le> unat x"
    using bit_top_nat [OF Suc.prems(1)] by (simp add: bit_unsigned_iff)
  show ?case
  proof (cases "bit x i")
    case True
    with b Suc.prems show ?thesis by simp
  next
    case False
    with b have "unat x < 2 ^ i" by simp
    from Suc.IH [OF this Suc.prems(2)] False show ?thesis
      by (simp add: Suc_diff_le less_imp_le)
  qed
qed

lemma unat_push_bit_1: "k < 32 \<Longrightarrow> unat (push_bit k 1 :: 32 word) = 2 ^ k"
proof -
  assume k: "k < 32"
  have "(push_bit k 1 :: 32 word) = of_nat (2 ^ k)" by simp
  then have "unat (push_bit k 1 :: 32 word) = 2 ^ k mod 2 ^ 32"
    by (simp only: unat_of_nat) simp
  moreover have "(2::nat) ^ k < 2 ^ 32"
    using k by (rule power_strict_increasing) simp
  ultimately show ?thesis by simp
qed

lemma unat_2_power_32: "k < 32 \<Longrightarrow> unat ((2::32 word) ^ k) = 2 ^ k"
  using unat_push_bit_1 [of k] by simp

lemma size_p2_nonzero:
  assumes "v \<noteq> 0" "v < 0x80000000"
  shows "\<exists>r k. mxutil_size_p2 clz0 v = Some r \<and> 0 < k \<and> k < 32 \<and> unat r = 2 ^ k
            \<and> unat v < unat r \<and> unat r \<le> 2 * unat v"
proof -
  define z where "z = leading_zeros 32 v"
  have "unat v < 2 ^ 32" using unsigned_less [of v] by simp
  from leading_zeros_bounds [OF this assms(1)]
  have z: "z < 32" "2 ^ (31 - z) \<le> unat v" "unat v < 2 ^ (32 - z)"
    by (simp_all add: z_def)
  have "unat v < 2 ^ 31" using assms(2) by (simp add: word_less_nat_alt)
  with z(2) have "(2::nat) ^ (31 - z) < 2 ^ 31" by linarith
  then have "31 - z < 31" by (rule power_less_imp_less_exp [rotated]) simp
  then have z1: "1 \<le> z" by simp
  let ?k = "32 - z"
  have k: "0 < ?k" "?k < 32" using z z1 by simp_all
  have "mxutil_size_p2 clz0 v = Some (push_bit ?k 1)"
    using assms(1) z z1
    by (simp add: mxutil_size_p2_def builtin_clz_def shl_one_def z_def [symmetric] nat_diff_distrib')
  moreover have u: "unat (push_bit ?k 1 :: 32 word) = 2 ^ ?k"
    using k(2) by (rule unat_push_bit_1)
  moreover have "(2::nat) ^ ?k = 2 * 2 ^ (31 - z)"
  proof -
    have "?k = Suc (31 - z)" using z(1) by simp
    then show ?thesis by (simp only: power_Suc)
  qed
  ultimately have "mxutil_size_p2 clz0 v = Some (push_bit ?k 1) \<and> 0 < ?k \<and> ?k < 32
      \<and> unat (push_bit ?k 1 :: 32 word) = 2 ^ ?k
      \<and> unat v < unat (push_bit ?k 1 :: 32 word)
      \<and> unat (push_bit ?k 1 :: 32 word) \<le> 2 * unat v"
    using k z(2,3) by (simp only:) simp
  then show ?thesis by blast
qed

lemma size_p2_zero:
  assumes "1 \<le> clz0" "clz0 \<le> 32"
  shows "\<exists>r k. mxutil_size_p2 clz0 0 = Some r \<and> k < 32 \<and> unat r = 2 ^ k"
proof -
  let ?k = "nat (32 - clz0)"
  have k: "?k < 32" using assms by simp
  have "mxutil_size_p2 clz0 0 = Some (push_bit ?k 1)"
    using assms by (simp add: mxutil_size_p2_def builtin_clz_def shl_one_def)
  with k show ?thesis
    by - (rule exI [of _ "push_bit ?k 1"], rule exI [of _ ?k], simp add: unat_2_power_32)
qed

section \<open>Properties of string references\<close>

lemma length_load [simp]: "length (load m p n) = n"
  by (simp add: load_def)

lemma load_0 [simp]: "load m p 0 = []"
  by (simp add: load_def)

lemma load_Suc: "load m p (Suc n) = load m p n @ [m (p + of_nat n)]"
  by (simp add: load_def)

lemma load_add: "load m p (i + j) = load m p i @ load m (p + of_nat i) j"
proof (induction j)
  case 0
  show ?case by simp
next
  case (Suc j)
  have "load m p (i + Suc j) = load m p (i + j) @ [m (p + of_nat (i + j))]"
    using load_Suc [of m p "i + j"] by simp
  also have "\<dots> = load m p i @ load m (p + of_nat i) j @ [m (p + of_nat i + of_nat j)]"
    by (simp only: Suc.IH of_nat_add add.assoc append_assoc)
  also have "\<dots> = load m p i @ load m (p + of_nat i) (Suc j)"
    by (simp only: load_Suc)
  finally show ?case .
qed

lemma memcmp_bytes_zero_iff:
  "length xs = length ys \<Longrightarrow> memcmp_bytes xs ys = 0 \<longleftrightarrow> xs = ys"
proof (induction xs ys rule: list_induct2)
  case Nil
  show ?case by simp
next
  case (Cons x xs y ys)
  have "uint x - uint y = 0 \<longleftrightarrow> x = y"
    by (simp add: word_uint_eq_iff)
  with Cons.IH show ?case by simp
qed

lemma memcmp_zero_iff:
  "memcmp m p q n = 0 \<longleftrightarrow> load m p (unat n) = load m q (unat n)"
  by (simp add: memcmp_def memcmp_bytes_zero_iff)

lemma mxstr_substr_eq:
  "mxstr_substr v start end0 =
     (\<not> (end0 < start \<or> len v < start \<or> len v < end0),
      \<lparr>ptr = ptr v + min start (len v),
       len = min (max start end0) (len v) - min start (len v)\<rparr>)"
  by (auto simp: mxstr_substr_def Let_def min_def max_def)

lemma mxstr_substr_in_bounds:
  "unat (min start (len v)) + unat (len (snd (mxstr_substr v start end0))) \<le> unat (len v)"
  unfolding mxstr_substr_eq snd_conv
  by (auto simp: min_def max_def unat_sub word_le_nat_alt word_less_nat_alt)

lemma substr_from_0:
  "mxstr_substr v 0 n =
     (n \<le> len v, \<lparr>ptr = ptr v, len = (if n \<le> len v then n else len v)\<rparr>)"
  by (auto simp: mxstr_substr_def Let_def)

lemma cmp_same_len:
  "len a = len b \<Longrightarrow> mxstr_cmp m a b = 0 \<longleftrightarrow> str_bytes m a = str_bytes m b"
  by (simp add: mxstr_cmp_def Let_def min_macro_def memcmp_zero_iff str_bytes_def)

lemma consume_le:
  "n \<le> len v \<Longrightarrow> mxstr_consume v n = (n, \<lparr>ptr = ptr v + n, len = len v - n\<rparr>)"
  by (auto simp: mxstr_consume_def Let_def min_macro_def)

lemma prefix_of_substr:
  assumes "mxstr_substr a start end0 = (True, s)"
  shows "mxstr_prefix a s = Some \<lparr>ptr = ptr a, len = start\<rparr>"
    and "str_bytes m \<lparr>ptr = ptr a, len = start\<rparr> @ str_bytes m s
           = load m (ptr a) (unat end0)"
    and "end0 \<le> len a"
proof -
  from assms have b: "start \<le> end0" "start \<le> len a" "end0 \<le> len a"
    and s: "s = \<lparr>ptr = ptr a + start, len = end0 - start\<rparr>"
    by (auto simp: mxstr_substr_def Let_def split: if_splits)
  show "mxstr_prefix a s = Some \<lparr>ptr = ptr a, len = start\<rparr>"
    using b by (simp add: mxstr_prefix_def mxstr_substr_offset_def s)
  have "unat end0 = unat start + unat (end0 - start)"
    using b by (simp add: unat_sub word_le_nat_alt)
  then show "str_bytes m \<lparr>ptr = ptr a, len = start\<rparr> @ str_bytes m s
               = load m (ptr a) (unat end0)"
    by (simp add: str_bytes_def s load_add)
  show "end0 \<le> len a" by (rule b)
qed

text \<open>
  C3.  For every view and all indices, \<open>mxstr_substr\<close> returns the range
  \<open>[start, end)\<close> clamped into \<open>[0, len]\<close>: it starts at offset \<open>min start len\<close> and
  ends at offset \<open>min (max start end) len\<close>, so it never leaves the view; the flag is
  false exactly when \<open>end < start\<close>, \<open>start > len\<close> or \<open>end > len\<close>.  On a 10-byte view:
  \<open>(2, 5)\<close> gives the exact 3-byte range and true, \<open>(5, 3)\<close> gives false and an empty
  range at offset 5, \<open>(20, 25)\<close> gives false and an empty range at offset 10.
\<close>

theorem mxstr_substr_clamps:
  "mxstr_substr v start end0 =
     (\<not> (end0 < start \<or> len v < start \<or> len v < end0),
      \<lparr>ptr = ptr v + min start (len v),
       len = min (max start end0) (len v) - min start (len v)\<rparr>)
   \<and> unat (min start (len v)) + unat (len (snd (mxstr_substr v start end0))) \<le> unat (len v)
   \<and> mxstr_substr \<lparr>ptr = p, len = 10\<rparr> 2 5 = (True, \<lparr>ptr = p + 2, len = 3\<rparr>)
   \<and> mxstr_substr \<lparr>ptr = p, len = 10\<rparr> 5 3 = (False, \<lparr>ptr = p + 5, len = 0\<rparr>)
   \<and> mxstr_substr \<lparr>ptr = p, len = 10\<rparr> 20 25 = (False, \<lparr>ptr = p + 10, len = 0\<rparr>)"
proof -
  have "mxstr_substr \<lparr>ptr = p, len = 10\<rparr> 2 5 = (True, \<lparr>ptr = p + 2, len = 3\<rparr>)"
    by (simp add: mxstr_substr_def)
  moreover have "mxstr_substr \<lparr>ptr = p, len = 10\<rparr> 5 3 = (False, \<lparr>ptr = p + 5, len = 0\<rparr>)"
    by (simp add: mxstr_substr_def)
  moreover have "mxstr_substr \<lparr>ptr = p, len = 10\<rparr> 20 25 = (False, \<lparr>ptr = p + 10, len = 0\<rparr>)"
    by (simp add: mxstr_substr_def)
  ultimately show ?thesis
    using mxstr_substr_eq [of v start end0] mxstr_substr_in_bounds [of start v end0]
    by blast
qed

text \<open>
  C4, as stated, fails: on a 10-byte view the prefix before the slice \<open>(2, 5)\<close> and the
  slice itself make 5 bytes, not the 10 bytes of the view.
\<close>

theorem prefix_substr_concat_counterexample:
  "mxstr_substr \<lparr>ptr = 0, len = 10\<rparr> 2 5 = (True, \<lparr>ptr = 2, len = 3\<rparr>)
   \<and> mxstr_prefix \<lparr>ptr = 0, len = 10\<rparr> \<lparr>ptr = 2, len = 3\<rparr> = Some \<lparr>ptr = 0, len = 2\<rparr>
   \<and> str_bytes sample_memory \<lparr>ptr = 0, len = 2\<rparr> @ str_bytes sample_memory \<lparr>ptr = 2, len = 3\<rparr>
       \<noteq> str_bytes sample_memory \<lparr>ptr = 0, len = 10\<rparr>"
proof -
  have "length (str_bytes sample_memory \<lparr>ptr = 0, len = 2\<rparr>
          @ str_bytes sample_memory \<lparr>ptr = 2, len = 3\<rparr>) = 5"
    by (simp add: str_bytes_def)
  moreover have "length (str_bytes sample_memory \<lparr>ptr = 0, len = 10\<rparr>) = 10"
    by (simp add: str_bytes_def)
  ultimately have "str_bytes sample_memory \<lparr>ptr = 0, len = 2\<rparr>
      @ str_bytes sample_memory \<lparr>ptr = 2, len = 3\<rparr>
      \<noteq> str_bytes sample_memory \<lparr>ptr = 0, len = 10\<rparr>"
    by (metis numeral_eq_iff semiring_norm(89))
  then show ?thesis
    by (simp add: mxstr_substr_def mxstr_prefix_def mxstr_substr_offset_def)
qed

text \<open>
  C4, amended.  For every view \<open>a\<close> and every sub-slice \<open>s\<close> that \<open>mxstr_substr\<close>
  returns for \<open>(start, end)\<close> with the flag true, \<open>mxstr_prefix a s\<close> is the first
  \<open>start\<close> bytes of \<open>a\<close>, and the prefix followed by \<open>s\<close> is the first \<open>end\<close> bytes of
  \<open>a\<close>; that is all of \<open>a\<close> exactly when \<open>end\<close> is the length of \<open>a\<close>.
\<close>

theorem prefix_substr_concat:
  assumes "mxstr_substr a start end0 = (True, s)"
  shows "mxstr_prefix a s = Some \<lparr>ptr = ptr a, len = start\<rparr>
   \<and> str_bytes m \<lparr>ptr = ptr a, len = start\<rparr> @ str_bytes m s = load m (ptr a) (unat end0)
   \<and> end0 \<le> len a
   \<and> (str_bytes m \<lparr>ptr = ptr a, len = start\<rparr> @ str_bytes m s = str_bytes m a)
       = (end0 = len a)"
proof -
  note p = prefix_of_substr [OF assms]
  have "(load m (ptr a) (unat end0) = str_bytes m a) = (end0 = len a)"
  proof
    assume "load m (ptr a) (unat end0) = str_bytes m a"
    then have "length (load m (ptr a) (unat end0)) = length (str_bytes m a)"
      by simp
    then show "end0 = len a"
      by (simp add: str_bytes_def word_unat_eq_iff)
  next
    assume "end0 = len a"
    then show "load m (ptr a) (unat end0) = str_bytes m a"
      by (simp add: str_bytes_def)
  qed
  with p show ?thesis by simp
qed

theorem prefix_substr_concat_witness:
  "mxstr_substr \<lparr>ptr = 0, len = 10\<rparr> 2 10 = (True, \<lparr>ptr = 2, len = 8\<rparr>)
   \<and> mxstr_prefix \<lparr>ptr = 0, len = 10\<rparr> \<lparr>ptr = 2, len = 8\<rparr> = Some \<lparr>ptr = 0, len = 2\<rparr>
   \<and> str_bytes sample_memory \<lparr>ptr = 0, len = 2\<rparr> @ str_bytes sample_memory \<lparr>ptr = 2, len = 8\<rparr>
       = str_bytes sample_memory \<lparr>ptr = 0, len = 10\<rparr>"
proof -
  have h: "mxstr_substr \<lparr>ptr = 0, len = 10\<rparr> 2 10 = (True, \<lparr>ptr = 2, len = 8\<rparr>)"
    by (simp add: mxstr_substr_def)
  show ?thesis
    using h prefix_substr_concat [OF h, of sample_memory] by (simp add: str_bytes_def)
qed

lemma mxstr_cmp_reflexive: "mxstr_cmp m a a = 0"
  by (simp add: mxstr_cmp_def Let_def memcmp_zero_iff)

lemma sint_len_diff:
  fixes a b :: "64 word"
  assumes "a < 0x80000000" "b < 0x80000000"
  shows "sint (ucast (a - b) :: 32 word) = int (unat a) - int (unat b)"
proof -
  let ?d = "uint a - uint b"
  let ?e = "int (unat a) - int (unat b)"
  have ub: "unat a < 2147483648" "unat b < 2147483648"
    using assms by (simp_all add: word_less_nat_alt)
  have de: "?d = ?e" by (simp only: uint_nat)
  have "- 2147483648 \<le> ?e" "?e < 2147483648" using ub by linarith+
  then have bd: "- (2 ^ 31) \<le> ?e" "?e < 2 ^ 31" by simp_all
  have "a - b = word_of_int ?d" by (rule word_sub_wi)
  then have "(ucast (a - b) :: 32 word) = ucast (word_of_int ?d :: 64 word)"
    by (simp only:)
  also have "\<dots> = word_of_int ?d"
    by (rule ucast_down_wi) (simp add: is_down)
  finally have "(ucast (a - b) :: 32 word) = word_of_int ?e" by (simp only: de)
  then have "sint (ucast (a - b) :: 32 word) = sint (word_of_int ?e :: 32 word)"
    by (simp only:)
  also have "\<dots> = signed_take_bit (LENGTH(32) - 1) ?e"
    by (rule sint_sbintrunc')
  also have "\<dots> = signed_take_bit 31 ?e" by simp
  also have "\<dots> = ?e"
    using bd by (rule signed_take_bit_int_eq_self)
  finally show ?thesis .
qed

lemma load_take: "n \<le> k \<Longrightarrow> load m p n = take n (load m p k)"
  by (simp add: load_def take_map take_upt)

lemma memcmp_bytes_lexord:
  "(memcmp_bytes (take (min (length xs) (length ys)) xs) (take (min (length xs) (length ys)) ys) < 0
      \<or> memcmp_bytes (take (min (length xs) (length ys)) xs) (take (min (length xs) (length ys)) ys) = 0
        \<and> length xs < length ys)
    \<longleftrightarrow> (xs, ys) \<in> lexord {(x, y). x < y}"
proof (induction xs ys rule: list_induct2')
  case (4 x xs y ys)
  have "uint x - uint y < 0 \<longleftrightarrow> x < y" by (simp add: word_less_def)
  moreover have "uint x = uint y \<longleftrightarrow> x = y" by (simp add: word_uint_eq_iff)
  ultimately show ?case using 4 by (auto simp: min_def)
qed simp_all

lemma memcmp_bytes_eq:
  "(memcmp_bytes (take (min (length xs) (length ys)) xs) (take (min (length xs) (length ys)) ys) = 0
        \<and> length xs = length ys)
    \<longleftrightarrow> xs = ys"
proof (induction xs ys rule: list_induct2')
  case (4 x xs y ys)
  have "uint x - uint y = 0 \<longleftrightarrow> x = y" by (simp add: word_uint_eq_iff)
  with 4 show ?case by (auto simp: min_def)
qed auto

lemma mxstr_cmp_unfold:
  assumes "len a < 0x80000000" "len b < 0x80000000"
  shows "mxstr_cmp m a b =
    (let c = memcmp_bytes
               (take (min (length (str_bytes m a)) (length (str_bytes m b))) (str_bytes m a))
               (take (min (length (str_bytes m a)) (length (str_bytes m b))) (str_bytes m b))
     in if c = 0 then int (length (str_bytes m a)) - int (length (str_bytes m b)) else c)"
proof -
  let ?k = "min_macro (len a) (len b)"
  have k: "unat ?k = min (unat (len a)) (unat (len b))"
    by (simp add: min_macro_def word_less_nat_alt min_def)
  have "load m (ptr a) (unat ?k) = take (unat ?k) (str_bytes m a)"
    unfolding str_bytes_def by (rule load_take) (simp add: k)
  moreover have "load m (ptr b) (unat ?k) = take (unat ?k) (str_bytes m b)"
    unfolding str_bytes_def by (rule load_take) (simp add: k)
  moreover have "length (str_bytes m a) = unat (len a)" "length (str_bytes m b) = unat (len b)"
    by (simp_all add: str_bytes_def)
  ultimately show ?thesis
    by (simp add: mxstr_cmp_def memcmp_def Let_def sint_len_diff [OF assms] k)
qed

lemma byte_lexord_asym:
  "(xs, ys) \<in> lexord {(x::byte, y). x < y} \<Longrightarrow> (ys, xs) \<notin> lexord {(x, y). x < y}"
proof
  assume a: "(xs, ys) \<in> lexord {(x::byte, y). x < y}"
    and b: "(ys, xs) \<in> lexord {(x::byte, y). x < y}"
  have "trans {(x::byte, y). x < y}" by (auto simp: trans_def)
  with a b have "(xs, xs) \<in> lexord {(x::byte, y). x < y}" by (rule lexord_trans)
  then show False by (simp add: lexord_irreflexive)
qed

lemma byte_lexord_linear:
  "(xs, ys) \<in> lexord {(x::byte, y). x < y} \<or> xs = ys \<or> (ys, xs) \<in> lexord {(x, y). x < y}"
  by (rule lexord_linear) auto

text \<open>
  For views shorter than \<open>2^31\<close> bytes \<open>mxstr_cmp\<close> is the lexicographic order of the
  byte sequences: negative, zero or positive as the first is below, equal to or above the
  second.  Hence, within that bound, its sign is antisymmetric and it is transitive.
\<close>

lemma mxstr_cmp_lexord:
  assumes "len a < 0x80000000" "len b < 0x80000000"
  shows "mxstr_cmp m a b < 0 \<longleftrightarrow> (str_bytes m a, str_bytes m b) \<in> lexord {(x, y). x < y}"
    and "mxstr_cmp m a b = 0 \<longleftrightarrow> str_bytes m a = str_bytes m b"
    and "mxstr_cmp m a b > 0 \<longleftrightarrow> (str_bytes m b, str_bytes m a) \<in> lexord {(x, y). x < y}"
proof -
  let ?xs = "str_bytes m a" and ?ys = "str_bytes m b"
  let ?c = "memcmp_bytes (take (min (length ?xs) (length ?ys)) ?xs)
               (take (min (length ?xs) (length ?ys)) ?ys)"
  have u: "mxstr_cmp m a b = (if ?c = 0 then int (length ?xs) - int (length ?ys) else ?c)"
    using mxstr_cmp_unfold [OF assms, of m] by (simp add: Let_def)
  have "mxstr_cmp m a b < 0 \<longleftrightarrow> (?c < 0 \<or> ?c = 0 \<and> length ?xs < length ?ys)"
    unfolding u by auto
  then show lt: "mxstr_cmp m a b < 0 \<longleftrightarrow> (?xs, ?ys) \<in> lexord {(x, y). x < y}"
    by (simp only: memcmp_bytes_lexord)
  have "mxstr_cmp m a b = 0 \<longleftrightarrow> (?c = 0 \<and> length ?xs = length ?ys)"
    unfolding u by auto
  then show eq: "mxstr_cmp m a b = 0 \<longleftrightarrow> ?xs = ?ys"
    by (simp only: memcmp_bytes_eq)
  have "mxstr_cmp m a b > 0 \<longleftrightarrow> \<not> mxstr_cmp m a b < 0 \<and> mxstr_cmp m a b \<noteq> 0" by auto
  also have "\<dots> \<longleftrightarrow> (?xs, ?ys) \<notin> lexord {(x, y). x < y} \<and> ?xs \<noteq> ?ys"
    by (simp only: lt eq)
  also have "\<dots> \<longleftrightarrow> (?ys, ?xs) \<in> lexord {(x, y). x < y}"
    using byte_lexord_linear [of ?xs ?ys] byte_lexord_asym [of ?ys ?xs]
      lexord_irreflexive [of "{(x::byte, y). x < y}" ?xs]
    by auto
  finally show "mxstr_cmp m a b > 0 \<longleftrightarrow> (?ys, ?xs) \<in> lexord {(x, y). x < y}" .
qed

lemma mxstr_cmp_antisymmetric:
  assumes "len a < 0x80000000" "len b < 0x80000000"
  shows "sgn (mxstr_cmp m a b) = - sgn (mxstr_cmp m b a)"
proof -
  have "mxstr_cmp m a b < 0 \<longleftrightarrow> mxstr_cmp m b a > 0"
    by (simp only: mxstr_cmp_lexord(1) [OF assms] mxstr_cmp_lexord(3) [OF assms(2,1)])
  moreover have "mxstr_cmp m a b > 0 \<longleftrightarrow> mxstr_cmp m b a < 0"
    by (simp only: mxstr_cmp_lexord(3) [OF assms] mxstr_cmp_lexord(1) [OF assms(2,1)])
  ultimately show ?thesis by (auto simp: sgn_if)
qed

lemma mxstr_cmp_transitive:
  assumes "len a < 0x80000000" "len b < 0x80000000" "len c < 0x80000000"
    and "mxstr_cmp m a b \<le> 0" "mxstr_cmp m b c \<le> 0"
  shows "mxstr_cmp m a c \<le> 0"
proof -
  let ?r = "{(x::byte, y). x < y}"
  have t: "trans ?r" by (auto simp: trans_def)
  from assms(4) have ab: "(str_bytes m a, str_bytes m b) \<in> lexord ?r \<or> str_bytes m a = str_bytes m b"
    using mxstr_cmp_lexord(1,2) [OF assms(1,2), of m] by linarith
  from assms(5) have bc: "(str_bytes m b, str_bytes m c) \<in> lexord ?r \<or> str_bytes m b = str_bytes m c"
    using mxstr_cmp_lexord(1,2) [OF assms(2,3), of m] by linarith
  from ab bc have "(str_bytes m a, str_bytes m c) \<in> lexord ?r \<or> str_bytes m a = str_bytes m c"
    using lexord_trans [OF _ _ t] by metis
  then show ?thesis
    using mxstr_cmp_lexord(1,2) [OF assms(1,3), of m] by auto
qed

text \<open>With ``aa'' stored at address \<open>0x500\<close>: ``ab'' against ``abc'' is negative, ``b''
  against ``aa'' is positive.\<close>

lemma mxstr_cmp_examples:
  "mxstr_cmp (memset sample_memory 0x500 0x61 2) \<lparr>ptr = 0x61, len = 2\<rparr> \<lparr>ptr = 0x161, len = 3\<rparr> < 0"
  "mxstr_cmp (memset sample_memory 0x500 0x61 2) \<lparr>ptr = 0x62, len = 1\<rparr> \<lparr>ptr = 0x500, len = 2\<rparr> > 0"
  "str_bytes (memset sample_memory 0x500 0x61 2) \<lparr>ptr = 0x61, len = 2\<rparr> = [0x61, 0x62]"
  "str_bytes (memset sample_memory 0x500 0x61 2) \<lparr>ptr = 0x161, len = 3\<rparr> = [0x61, 0x62, 0x63]"
  "str_bytes (memset sample_memory 0x500 0x61 2) \<lparr>ptr = 0x62, len = 1\<rparr> = [0x62]"
  "str_bytes (memset sample_memory 0x500 0x61 2) \<lparr>ptr = 0x500, len = 2\<rparr> = [0x61, 0x61]"
  by code_simp+

text \<open>
  C5 fails on the code.  The length difference, a \<open>size_t\<close>, is assigned to an \<open>int\<close>,
  which keeps its low 32 bits.  A view of \<open>2^31\<close> bytes compares below the empty view,
  although the empty view is the shorter one, and the empty view compares below it as
  well: both results are \<open>INT_MIN\<close>, so the order is not antisymmetric.  A view of
  \<open>2^32\<close> bytes compares equal to the empty view.
\<close>

theorem mxstr_cmp_truncates_length:
  "mxstr_cmp m \<lparr>ptr = p, len = 0x80000000\<rparr> \<lparr>ptr = q, len = 0\<rparr> = - 2147483648
   \<and> mxstr_cmp m \<lparr>ptr = q, len = 0\<rparr> \<lparr>ptr = p, len = 0x80000000\<rparr> = - 2147483648
   \<and> mxstr_cmp m \<lparr>ptr = p, len = 0x100000000\<rparr> \<lparr>ptr = q, len = 0\<rparr> = 0"
  by (simp add: mxstr_cmp_def memcmp_def min_macro_def)

text \<open>
  C8.  \<open>mxstr_consume_str\<close> returns true and advances the view past \<open>len prefix\<close> bytes
  exactly when the view is at least as long as the prefix and its first \<open>len prefix\<close>
  bytes equal the bytes of the prefix; otherwise it returns false and the view is
  unchanged (same pointer, same length).
\<close>

theorem mxstr_consume_str_correct:
  "mxstr_consume_str m v p =
     (if len p \<le> len v \<and> load m (ptr v) (unat (len p)) = str_bytes m p
      then (True, \<lparr>ptr = ptr v + len p, len = len v - len p\<rparr>)
      else (False, v))"
proof (cases "len p \<le> len v")
  case True
  have "mxstr_cmp m \<lparr>ptr = ptr v, len = len p\<rparr> p = 0 \<longleftrightarrow>
      str_bytes m \<lparr>ptr = ptr v, len = len p\<rparr> = str_bytes m p"
    by (rule cmp_same_len) simp
  then have "mxstr_cmp m \<lparr>ptr = ptr v, len = len p\<rparr> p = 0 \<longleftrightarrow>
      load m (ptr v) (unat (len p)) = str_bytes m p"
    by (simp add: str_bytes_def)
  with True show ?thesis
    by (simp add: mxstr_consume_str_def substr_from_0 consume_le)
next
  case False
  then show ?thesis
    by (simp add: mxstr_consume_str_def substr_from_0)
qed

text \<open>
  C10.  On a non-empty view \<open>mxstr_consume_char\<close> stores the first byte in the
  auxiliary variable whether or not the predicate accepts it: when the predicate rejects
  the byte, the result is false, the view is unchanged and the variable holds that byte.
  The variable keeps its old value only when the view is empty.
\<close>

theorem mxstr_consume_char_stores_first_byte:
  "mxstr_consume_char m v c match =
     (if len v = 0 then (False, v, c)
      else if match (m (ptr v))
        then (True, \<lparr>ptr = ptr v + 1, len = len v - 1\<rparr>, m (ptr v))
        else (False, v, m (ptr v)))"
  by (auto simp: mxstr_consume_char_def mxstr_getchar_def mxstr_consume_def min_macro_def
      Let_def word_neq_0_conv)

section \<open>Properties of buffers\<close>

lemma ucast_down: "unat (x::64 word) < 2 ^ 32 \<Longrightarrow> unat (ucast x :: 32 word) = unat x"
  by (simp add: unsigned_ucast_eq take_bit_nat_eq_self)

lemma ucast_up: "unat (ucast (r::32 word) :: 64 word) = unat r"
proof -
  have "unat r < 2 ^ 32" using unsigned_less [of r] by simp
  then have "unat r < 2 ^ 64" by simp
  then show ?thesis by (simp add: unsigned_ucast_eq take_bit_nat_eq_self)
qed

lemma offset_written:
  "buf_inv b \<Longrightarrow> mxstr_substr_offset (buf b) (available b) = Some (written b)"
  by (simp add: buf_inv_def mxstr_substr_offset_def written_def word_sub_le)

lemma size_p2_of_size:
  assumes "x \<noteq> 0" "x < (0x80000000 :: 64 word)"
  shows "\<exists>r k. mxutil_size_p2 clz0 (ucast x) = Some r \<and> 0 < k \<and> k < 32 \<and> unat r = 2 ^ k
            \<and> unat x < unat r"
proof -
  have x: "unat x < 2 ^ 31" using assms(2) by (simp add: word_less_nat_alt)
  then have u: "unat (ucast x :: 32 word) = unat x" by (intro ucast_down) simp
  have "unat x \<noteq> 0" using assms(1) by (simp add: unat_eq_0)
  with u have nz: "(ucast x :: 32 word) \<noteq> 0" by (metis unat_eq_0)
  have lt: "(ucast x :: 32 word) < 0x80000000" using x u by (simp add: word_less_nat_alt)
  from size_p2_nonzero [OF nz lt, of clz0] u show ?thesis by auto
qed

lemma realloc_grow:
  assumes "owned b h" "pool h = q # qs" "q \<noteq> 0" "n \<noteq> 0"
  shows "mxutil_realloc h (if ptr (buf b) \<noteq> ptr (init b) then ptr (buf b) else 0) n
           = Some (q, grown_heap b h q n qs)"
proof (cases "ptr (buf b) = ptr (init b)")
  case True
  with assms show ?thesis
    by (simp add: mxutil_realloc_def realloc_def grown_heap_def)
next
  case False
  with assms(1) have "ptr (buf b) \<noteq> 0" "blocks h (ptr (buf b)) = Some (len (buf b))"
    by (simp_all add: owned_def)
  with False assms(2-4) show ?thesis
    by (simp add: mxutil_realloc_def realloc_def grown_heap_def)
qed

lemma substr_tail:
  "w \<le> n \<Longrightarrow> mxstr_substr (mxstr q n) w n = (True, \<lparr>ptr = q + w, len = n - w\<rparr>)"
  by (simp add: mxstr_substr_def mxstr_def Let_def not_less)

lemma growth_size:
  assumes need: "len (available b) < sz"
    and cap: "growable clz0 b"
    and szb: "sz < 0x80000000"
  shows "\<exists>ra rb k. mxutil_size_p2 clz0 (ucast (len (buf b))) = Some ra
           \<and> mxutil_size_p2 clz0 (ucast sz) = Some rb
           \<and> k < 32 \<and> unat (ucast (max_macro ra rb) :: size_t) = 2 ^ k
           \<and> len (buf b) < ucast (max_macro ra rb) \<and> sz < ucast (max_macro ra rb)"
proof -
  have "sz \<noteq> 0" using need by (metis word_not_simps(1))
  from size_p2_of_size [OF this szb, of clz0]
  obtain rb kb where rb: "mxutil_size_p2 clz0 (ucast sz) = Some rb" "kb < 32"
      "unat rb = 2 ^ kb" "unat sz < unat rb"
    by blast
  have "\<exists>ra ka. mxutil_size_p2 clz0 (ucast (len (buf b))) = Some ra \<and> ka < 32
      \<and> unat ra = 2 ^ ka \<and> unat (len (buf b)) < unat ra"
  proof (cases "len (buf b) = 0")
    case True
    with cap have "1 \<le> clz0" "clz0 \<le> 32" by (simp_all add: growable_def)
    from size_p2_zero [OF this] True show ?thesis by auto
  next
    case False
    with cap have "len (buf b) < 0x80000000" by (simp add: growable_def)
    from size_p2_of_size [OF False this, of clz0] show ?thesis by blast
  qed
  then obtain ra ka where ra: "mxutil_size_p2 clz0 (ucast (len (buf b))) = Some ra" "ka < 32"
      "unat ra = 2 ^ ka" "unat (len (buf b)) < unat ra"
    by blast
  let ?N = "ucast (max_macro ra rb) :: size_t"
  have N: "unat ?N = unat (max_macro ra rb)" by (rule ucast_up)
  have m: "unat (max_macro ra rb) = (if unat rb < unat ra then unat ra else unat rb)"
    by (simp add: max_macro_def word_less_nat_alt)
  have "\<exists>k<32. unat ?N = 2 ^ k"
    using ra(2,3) rb(2,3) N m by (cases "unat rb < unat ra") auto
  moreover have "unat (len (buf b)) < unat ?N" "unat sz < unat ?N"
    using ra(4) rb(4) N m by auto
  ultimately show ?thesis
    using ra(1) rb(1) by (auto simp: word_less_nat_alt)
qed

lemma require_grows:
  assumes inv: "buf_inv b" and own: "owned b h"
    and need: "len (available b) < sz"
    and cap: "growable clz0 b"
    and szb: "sz < 0x80000000"
    and pool: "pool h = q # qs" "q \<noteq> 0"
  shows "\<exists>n k. k < 32 \<and> unat n = 2 ^ k \<and> len (buf b) < n \<and> sz < n \<and>
          mxbuf_require clz0 b h sz =
            Some (b\<lparr>buf := \<lparr>ptr = q, len = n\<rparr>,
                    available := \<lparr>ptr = q + written b, len = n - written b\<rparr>\<rparr>,
                  grown_heap b h q n qs)"
proof -
  from growth_size [OF need cap szb]
  obtain ra rb k where g: "mxutil_size_p2 clz0 (ucast (len (buf b))) = Some ra"
      "mxutil_size_p2 clz0 (ucast sz) = Some rb" "k < 32"
      "unat (ucast (max_macro ra rb) :: size_t) = 2 ^ k"
      "len (buf b) < ucast (max_macro ra rb)" "sz < ucast (max_macro ra rb)"
    by blast
  let ?n = "ucast (max_macro ra rb) :: size_t"
  have nz: "?n \<noteq> 0" using g(5) by (metis word_not_simps(1))
  have "written b \<le> len (buf b)"
    using inv by (simp add: written_def buf_inv_def word_sub_le)
  with g(5) have w: "written b \<le> ?n" by simp
  have "mxbuf_require clz0 b h sz =
      Some (b\<lparr>buf := \<lparr>ptr = q, len = ?n\<rparr>,
              available := \<lparr>ptr = q + written b, len = ?n - written b\<rparr>\<rparr>,
            grown_heap b h q ?n qs)"
    using need g(1,2) offset_written [OF inv] realloc_grow [OF own pool nz] substr_tail [OF w, of q]
    by (simp add: mxbuf_require_def Let_def mxstr_def)
  with g(3-6) show ?thesis by blast
qed

lemma putc_no_growth:
  "len (available b) \<noteq> 0 \<Longrightarrow>
   mxbuf_putc clz0 b h c =
     Some (True,
           b\<lparr>available := \<lparr>ptr = ptr (available b) + 1, len = len (available b) - 1\<rparr>\<rparr>,
           h\<lparr>mem := (mem h)(ptr (available b) := c)\<rparr>)"
  by (simp add: mxbuf_putc_def mxbuf_require_def mxstr_putc_def mxstr_empty_def
      mxstr_consume_def min_macro_def Let_def)

lemma putc_growth:
  assumes inv: "buf_inv b" and own: "owned b h"
    and full: "len (available b) = 0"
    and cap: "growable clz0 b"
    and pool: "pool h = q # qs" "q \<noteq> 0"
  shows "\<exists>n k. k < 32 \<and> unat n = 2 ^ k \<and> len (buf b) < n \<and>
          mxbuf_putc clz0 b h c =
            Some (True,
                  b\<lparr>buf := \<lparr>ptr = q, len = n\<rparr>,
                    available := \<lparr>ptr = q + written b + 1, len = n - written b - 1\<rparr>\<rparr>,
                  (grown_heap b h q n qs)
                    \<lparr>mem := (mem (grown_heap b h q n qs))(q + written b := c)\<rparr>)"
proof -
  have need: "len (available b) < 1" using full by simp
  from require_grows [OF inv own need cap _ pool]
  obtain n k where n: "k < 32" "unat n = 2 ^ k" "len (buf b) < n"
    and r: "mxbuf_require clz0 b h 1 =
            Some (b\<lparr>buf := \<lparr>ptr = q, len = n\<rparr>,
                    available := \<lparr>ptr = q + written b, len = n - written b\<rparr>\<rparr>,
                  grown_heap b h q n qs)"
    by auto
  have w: "written b = len (buf b)" using full by (simp add: written_def)
  have "n - written b \<noteq> 0" using n(3) w by simp
  then have "mxbuf_putc clz0 b h c =
            Some (True,
                  b\<lparr>buf := \<lparr>ptr = q, len = n\<rparr>,
                    available := \<lparr>ptr = q + written b + 1, len = n - written b - 1\<rparr>\<rparr>,
                  (grown_heap b h q n qs)
                    \<lparr>mem := (mem (grown_heap b h q n qs))(q + written b := c)\<rparr>)"
    using r
    by (simp add: mxbuf_putc_def mxstr_putc_def mxstr_empty_def
      mxstr_consume_def min_macro_def Let_def)
  with n show ?thesis by blast
qed

lemma load_cong:
  "(\<And>i. i < n \<Longrightarrow> m' (p' + of_nat i) = m (p + of_nat i)) \<Longrightarrow> load m' p' n = load m p n"
  by (simp add: load_def)

lemma unat_of_nat_lt: "i < unat (w::64 word) \<Longrightarrow> unat (of_nat i :: 64 word) = i"
proof -
  assume "i < unat w"
  moreover have "unat w < 2 ^ 64" using unsigned_less [of w] by simp
  ultimately have "i < 2 ^ 64" by simp
  then show ?thesis by (simp add: unat_of_nat)
qed

lemma of_nat_lt_word: "i < unat (w::64 word) \<Longrightarrow> (of_nat i :: 64 word) < w"
  by (simp add: word_less_nat_alt unat_of_nat_lt)

lemma roomy_growable: "roomy clz0 b \<Longrightarrow> growable clz0 b"
proof -
  assume r: "roomy clz0 b"
  show ?thesis
  proof (cases "len (buf b) = 0")
    case True
    with r show ?thesis by (simp add: roomy_def growable_def)
  next
    case False
    with r have "len (buf b) \<le> 0x40000000" by (simp add: roomy_def)
    then have "unat (len (buf b)) \<le> 0x40000000" by (simp add: word_le_nat_alt)
    then have "len (buf b) < 0x80000000" by (simp add: word_less_nat_alt)
    with False show ?thesis by (simp add: growable_def)
  qed
qed

lemma unat_add_one: "(x::64 word) < y \<Longrightarrow> unat (x + 1) = Suc (unat x)"
proof -
  assume "x < y"
  then have "unat x < unat y" by (simp add: word_less_nat_alt)
  moreover have "unat y < 2 ^ 64" using unsigned_less [of y] by simp
  ultimately have "unat x + 1 < 2 ^ 64" by simp
  then show ?thesis by (simp add: unat_word_ariths)
qed

lemma list_all_take_Suc:
  "list_all P (take (Suc k) xs) \<Longrightarrow> list_all P (take k xs)"
proof -
  assume a: "list_all P (take (Suc k) xs)"
  have "take k xs = take k (take (Suc k) xs)" by (simp add: min_def)
  then have "set (take k xs) \<subseteq> set (take (Suc k) xs)"
    by (metis set_take_subset)
  with a show ?thesis by (auto simp: list_all_iff)
qed

lemma putc_ready_no_growth:
  assumes r: "ready clz0 (Suc k) b h" and nz: "len (available b) \<noteq> 0"
  shows "\<exists>b' h'. mxbuf_putc clz0 b h c = Some (True, b', h') \<and> ready clz0 k b' h'
           \<and> init b' = init b \<and> written b' = written b + 1
           \<and> load (mem h') (ptr (buf b')) (unat (written b'))
               = load (mem h) (ptr (buf b)) (unat (written b)) @ [c]"
proof -
  let ?b = "b\<lparr>available := \<lparr>ptr = ptr (available b) + 1, len = len (available b) - 1\<rparr>\<rparr>"
  let ?h = "h\<lparr>mem := (mem h)(ptr (available b) := c)\<rparr>"
  from r have inv: "buf_inv b" and own: "owned b h" by (simp_all add: ready_def)
  from inv have le: "len (available b) \<le> len (buf b)"
    and pa: "ptr (available b) = ptr (buf b) + written b"
    by (simp_all add: buf_inv_def written_def)
  have ua: "unat (len (available b) - 1) = unat (len (available b)) - 1"
    using nz by (simp add: unat_minus_one)
  have le': "len (available b) - 1 \<le> len (buf b)"
    using le ua by (simp add: word_le_nat_alt)
  have inv': "buf_inv ?b"
    using le' pa by (simp add: buf_inv_def written_def)
  have own': "owned ?b ?h" using own by (simp add: owned_def)
  have w': "written ?b = written b + 1" by (simp add: written_def)
  have wlt: "written b < len (buf b)"
  proof -
    have "0 < unat (len (available b))" using nz by (simp add: unat_gt_0)
    moreover have "unat (len (available b)) \<le> unat (len (buf b))"
      using le by (simp add: word_le_nat_alt)
    moreover have "unat (written b) = unat (len (buf b)) - unat (len (available b))"
      using le by (simp add: written_def unat_sub)
    ultimately show ?thesis by (simp add: word_less_nat_alt)
  qed
  have uw: "unat (written b + 1) = Suc (unat (written b))"
    using wlt by (rule unat_add_one)
  have ready': "ready clz0 k ?b ?h"
  proof -
    from r have "Suc k \<le> unat (len (available b)) \<or>
      (roomy clz0 b \<and> (ptr (buf b) \<noteq> ptr (init b) \<or> len (buf b) = 0) \<and>
       Suc k \<le> length (pool h) \<and>
       list_all (\<lambda>q. q \<noteq> 0 \<and> q \<noteq> ptr (init b)) (take (Suc k) (pool h)))"
      by (simp add: ready_def)
    then show ?thesis
    proof
      assume "Suc k \<le> unat (len (available b))"
      with ua have "k \<le> unat (len (available b) - 1)" by linarith
      with inv' own' show ?thesis by (simp add: ready_def)
    next
      assume a: "roomy clz0 b \<and> (ptr (buf b) \<noteq> ptr (init b) \<or> len (buf b) = 0) \<and>
       Suc k \<le> length (pool h) \<and>
       list_all (\<lambda>q. q \<noteq> 0 \<and> q \<noteq> ptr (init b)) (take (Suc k) (pool h))"
      then have "list_all (\<lambda>q. q \<noteq> 0 \<and> q \<noteq> ptr (init b)) (take k (pool h))"
        by - (rule list_all_take_Suc, simp)
      with a inv' own' show ?thesis by (simp add: ready_def roomy_def)
    qed
  qed
  have "load ((mem h)(ptr (available b) := c)) (ptr (buf b)) (unat (written b))
      = load (mem h) (ptr (buf b)) (unat (written b))"
  proof (rule load_cong)
    fix i assume "i < unat (written b)"
    then have "(of_nat i :: 64 word) \<noteq> written b"
      using unat_of_nat_lt by fastforce
    then show "((mem h)(ptr (available b) := c)) (ptr (buf b) + of_nat i)
        = mem h (ptr (buf b) + of_nat i)"
      by (simp add: pa)
  qed
  then have ld: "load (mem ?h) (ptr (buf ?b)) (unat (written ?b))
      = load (mem h) (ptr (buf b)) (unat (written b)) @ [c]"
    by (simp only: w' uw load_Suc) (simp add: pa)
  show ?thesis
    using putc_no_growth [OF nz, of clz0 h c] ready' w' ld by simp
qed

lemma grown_heap_simps:
  "pool (grown_heap b h q n qs) = qs"
  "blocks (grown_heap b h q n qs) q = Some n"
  by (simp_all add: grown_heap_def)

lemma grown_heap_mem:
  assumes "ptr (buf b) \<noteq> ptr (init b) \<or> len (buf b) = 0" "len (buf b) < n"
    "i < unat (len (buf b))"
  shows "mem (grown_heap b h q n qs) (q + of_nat i) = mem h (ptr (buf b) + of_nat i)"
proof -
  from assms(3) have nz: "len (buf b) \<noteq> 0" by (auto simp: unat_eq_0)
  with assms(1) have ne: "ptr (buf b) \<noteq> ptr (init b)" by simp
  have "of_nat i < len (buf b)" using assms(3) by (rule of_nat_lt_word)
  with ne assms(2) show ?thesis
    by (simp add: grown_heap_def memcpy_def min_macro_def)
qed

lemma putc_ready_growth:
  assumes r: "ready clz0 (Suc k) b h" and full: "len (available b) = 0"
    and kb: "k < 2 ^ 30"
  shows "\<exists>b' h'. mxbuf_putc clz0 b h c = Some (True, b', h') \<and> ready clz0 k b' h'
           \<and> init b' = init b \<and> written b' = written b + 1
           \<and> load (mem h') (ptr (buf b')) (unat (written b'))
               = load (mem h) (ptr (buf b)) (unat (written b)) @ [c]"
proof -
  from r have inv: "buf_inv b" and own: "owned b h" by (simp_all add: ready_def)
  from r full have room: "roomy clz0 b"
    and safe: "ptr (buf b) \<noteq> ptr (init b) \<or> len (buf b) = 0"
    and pl: "Suc k \<le> length (pool h)"
    and pa: "list_all (\<lambda>q. q \<noteq> 0 \<and> q \<noteq> ptr (init b)) (take (Suc k) (pool h))"
    by (simp_all add: ready_def)
  from pl obtain q qs where pool: "pool h = q # qs"
    by (cases "pool h") simp_all
  with pl pa have q: "q \<noteq> 0" "q \<noteq> ptr (init b)" and ql: "k \<le> length qs"
    and qa: "list_all (\<lambda>q. q \<noteq> 0 \<and> q \<noteq> ptr (init b)) (take k qs)"
    by simp_all
  have w: "written b = len (buf b)" using full by (simp add: written_def)
  from putc_growth [OF inv own full roomy_growable [OF room] pool q(1), of c]
  obtain n j where n: "j < 32" "unat n = 2 ^ j" "len (buf b) < n"
    and p: "mxbuf_putc clz0 b h c =
            Some (True,
                  b\<lparr>buf := \<lparr>ptr = q, len = n\<rparr>,
                    available := \<lparr>ptr = q + written b + 1, len = n - written b - 1\<rparr>\<rparr>,
                  (grown_heap b h q n qs)
                    \<lparr>mem := (mem (grown_heap b h q n qs))(q + written b := c)\<rparr>)"
    by blast
  let ?b = "b\<lparr>buf := \<lparr>ptr = q, len = n\<rparr>,
                    available := \<lparr>ptr = q + written b + 1, len = n - written b - 1\<rparr>\<rparr>"
  let ?g = "grown_heap b h q n qs"
  let ?h = "?g\<lparr>mem := (mem ?g)(q + written b := c)\<rparr>"
  have uw: "unat (written b + 1) = Suc (unat (written b))"
    using n(3) unfolding w by (rule unat_add_one)
  have w1: "written b + 1 \<le> n" using n(3) unfolding w by (rule inc_le)
  have la: "n - written b - 1 = n - (written b + 1)" by simp
  have ua: "unat (n - written b - 1) = unat n - Suc (unat (written b))"
    unfolding la using w1 uw by (simp add: unat_sub)
  have inv': "buf_inv ?b"
    unfolding buf_inv_def using w1 by (simp add: la word_sub_le)
  have own': "owned ?b ?h" using q(1) by (simp add: owned_def grown_heap_simps)
  have w': "written ?b = written b + 1" by (simp add: written_def)
  have lw: "unat (len (buf b)) \<le> 2 ^ 30"
    using room by (cases "len (buf b) = 0") (simp_all add: roomy_def word_le_nat_alt)
  have ready': "ready clz0 k ?b ?h"
  proof (cases "j \<le> 30")
    case True
    then have "(2::nat) ^ j \<le> 2 ^ 30" by (rule power_increasing) simp
    with n(2) have "unat n \<le> 0x40000000" by simp
    then have "n \<le> 0x40000000" by (simp add: word_le_nat_alt)
    moreover have "n \<noteq> 0" using n(3) by (metis word_not_simps(1))
    ultimately have "roomy clz0 ?b" by (simp add: roomy_def)
    with inv' own' q(2) ql qa show ?thesis
      by (simp add: ready_def grown_heap_simps)
  next
    case False
    with n(1) have "j = 31" by simp
    with n(2) have "unat n = 2 ^ 31" by simp
    with ua lw kb have "k \<le> unat (n - written b - 1)" by (simp add: w)
    with inv' own' show ?thesis by (simp add: ready_def)
  qed
  have "load ((mem ?g)(q + written b := c)) q (unat (written b))
      = load (mem h) (ptr (buf b)) (unat (written b))"
  proof (rule load_cong)
    fix i assume i: "i < unat (written b)"
    then have "(of_nat i :: 64 word) \<noteq> written b"
      using unat_of_nat_lt by fastforce
    moreover have "mem ?g (q + of_nat i) = mem h (ptr (buf b) + of_nat i)"
      using safe n(3) i unfolding w by (rule grown_heap_mem)
    ultimately show "((mem ?g)(q + written b := c)) (q + of_nat i)
        = mem h (ptr (buf b) + of_nat i)"
      by simp
  qed
  then have ld: "load (mem ?h) (ptr (buf ?b)) (unat (written ?b))
      = load (mem h) (ptr (buf b)) (unat (written b)) @ [c]"
    by (simp only: w' uw load_Suc) simp
  show ?thesis
    using p ready' w' ld by simp
qed

lemma ucast_byte: "(ucast (x::32 word) :: 8 word) = of_nat (unat x)"
  by (simp add: word_unat_eq_iff unsigned_ucast_eq unat_of_nat take_bit_eq_mod)

lemma unat_and_low:
  "unat ((x::32 word) AND 0x3f) = unat x mod 64"
  "unat ((x::32 word) AND 0x1f) = unat x mod 32"
  "unat ((x::32 word) AND 0xf) = unat x mod 16"
  "unat ((x::32 word) AND 0x7) = unat x mod 8"
proof -
  have "x AND 0x3f = take_bit 6 x" "x AND 0x1f = take_bit 5 x"
    "x AND 0xf = take_bit 4 x" "x AND 0x7 = take_bit 3 x"
    by (simp_all add: take_bit_eq_mask mask_eq_exp_minus_1)
  then show "unat (x AND 0x3f) = unat x mod 64" "unat (x AND 0x1f) = unat x mod 32"
    "unat (x AND 0xf) = unat x mod 16" "unat (x AND 0x7) = unat x mod 8"
    by (simp_all only: unsigned_take_bit_eq) (simp_all add: take_bit_eq_mod)
qed

lemma unat_shift:
  "unat (drop_bit 6 (c::32 word)) = unat c div 64"
  "unat (drop_bit 12 (c::32 word)) = unat c div 4096"
  "unat (drop_bit 18 (c::32 word)) = unat c div 262144"
  by (simp_all only: unat_drop_bit_eq) (simp_all add: drop_bit_eq_div)

lemma unat_lead_add:
  fixes k y :: "32 word"
  assumes "unat k < 256" "unat y < 256"
  shows "unat (k + y) = unat k + unat y"
proof -
  from assms have "unat k + unat y < 2 ^ LENGTH(32)" by simp
  then show ?thesis by (simp only: unat_add_lem)
qed

lemma lead_byte:
  fixes x :: "32 word"
  shows "unat x < 64 \<Longrightarrow> (ucast (0x80 + x) :: 8 word) = of_nat (0x80 + unat x)"
    and "unat x < 32 \<Longrightarrow> (ucast (0xc0 + x) :: 8 word) = of_nat (0xC0 + unat x)"
    and "unat x < 16 \<Longrightarrow> (ucast (0xe0 + x) :: 8 word) = of_nat (0xE0 + unat x)"
    and "unat x < 8 \<Longrightarrow> (ucast (0xf0 + x) :: 8 word) = of_nat (0xF0 + unat x)"
proof -
  show "unat x < 64 \<Longrightarrow> (ucast (0x80 + x) :: 8 word) = of_nat (0x80 + unat x)"
    using unat_lead_add [of "0x80" x] by (simp only: ucast_byte) simp
  show "unat x < 32 \<Longrightarrow> (ucast (0xc0 + x) :: 8 word) = of_nat (0xC0 + unat x)"
    using unat_lead_add [of "0xc0" x] by (simp only: ucast_byte) simp
  show "unat x < 16 \<Longrightarrow> (ucast (0xe0 + x) :: 8 word) = of_nat (0xE0 + unat x)"
    using unat_lead_add [of "0xe0" x] by (simp only: ucast_byte) simp
  show "unat x < 8 \<Longrightarrow> (ucast (0xf0 + x) :: 8 word) = of_nat (0xF0 + unat x)"
    using unat_lead_add [of "0xf0" x] by (simp only: ucast_byte) simp
qed

lemma putc_ready:
  assumes "ready clz0 (Suc k) b h" "k < 2 ^ 30"
  shows "\<exists>b' h'. mxbuf_putc clz0 b h c = Some (True, b', h') \<and> ready clz0 k b' h'
           \<and> init b' = init b \<and> written b' = written b + 1
           \<and> load (mem h') (ptr (buf b')) (unat (written b'))
               = load (mem h) (ptr (buf b)) (unat (written b)) @ [c]"
proof (cases "len (available b) = 0")
  case True
  with assms show ?thesis by (intro putc_ready_growth)
next
  case False
  with assms(1) show ?thesis by (intro putc_ready_no_growth)
qed

lemma putc_all_ready:
  "ready clz0 (length xs + k) b h \<Longrightarrow> length xs + k \<le> 2 ^ 30 \<Longrightarrow>
   \<exists>b' h'. putc_all clz0 b h xs = Some (b', h') \<and> ready clz0 k b' h'
      \<and> init b' = init b
      \<and> load (mem h') (ptr (buf b')) (unat (written b'))
          = load (mem h) (ptr (buf b)) (unat (written b)) @ map ucast xs"
proof (induction xs arbitrary: b h)
  case Nil
  then show ?case by simp
next
  case (Cons x xs)
  from Cons.prems have r: "ready clz0 (Suc (length xs + k)) b h"
    and kb: "length xs + k < 2 ^ 30"
    by simp_all
  from putc_ready [OF r kb, of "ucast x"]
  obtain b1 h1 where s: "mxbuf_putc clz0 b h (ucast x) = Some (True, b1, h1)"
      "ready clz0 (length xs + k) b1 h1" "init b1 = init b"
      "load (mem h1) (ptr (buf b1)) (unat (written b1))
         = load (mem h) (ptr (buf b)) (unat (written b)) @ [ucast x]"
    by blast
  from kb have "length xs + k \<le> 2 ^ 30" by simp
  from Cons.IH [OF s(2) this]
  obtain b' h' where t: "putc_all clz0 b1 h1 xs = Some (b', h')" "ready clz0 k b' h'"
      "init b' = init b1"
      "load (mem h') (ptr (buf b')) (unat (written b'))
         = load (mem h1) (ptr (buf b1)) (unat (written b1)) @ map ucast xs"
    by blast
  from s(1) t(1) have "putc_all clz0 b h (x # xs) = Some (b', h')" by simp
  with t(2-4) s(3,4) show ?case by simp
qed

lemma contents_inv:
  "buf_inv b \<Longrightarrow> contents b h = Some (load (mem h) (ptr (buf b)) (unat (written b)))"
  by (simp add: contents_def mxbuf_str_def mxstr_prefix_def offset_written str_bytes_def)

lemma ready_mono:
  assumes "ready clz0 k b h" "j \<le> k"
  shows "ready clz0 j b h"
proof -
  have "take j (pool h) = take j (take k (pool h))" using assms(2) by (simp add: min_def)
  then have "set (take j (pool h)) \<subseteq> set (take k (pool h))"
    by (metis set_take_subset)
  then have "list_all P (take k (pool h)) \<Longrightarrow> list_all P (take j (pool h))" for P
    by (auto simp: list_all_iff)
  with assms show ?thesis by (auto simp: ready_def)
qed

lemma utf8_code_bytes:
  fixes c :: "32 word"
  shows "c < 0x80 \<Longrightarrow> map ucast [c] = utf8_encoding (unat c)"
    and "\<not> c < 0x80 \<Longrightarrow> c < 0x800 \<Longrightarrow>
      map ucast [0xc0 + (drop_bit 6 c AND 0x1f), 0x80 + (c AND 0x3f)]
        = utf8_encoding (unat c)"
    and "\<not> c < 0x800 \<Longrightarrow> c < 0x10000 \<Longrightarrow>
      map ucast [0xe0 + (drop_bit 12 c AND 0xf), 0x80 + (drop_bit 6 c AND 0x3f),
                 0x80 + (c AND 0x3f)]
        = utf8_encoding (unat c)"
    and "\<not> c < 0x10000 \<Longrightarrow> c < 0x110000 \<Longrightarrow>
      map ucast [0xf0 + (drop_bit 18 c AND 0x7), 0x80 + (drop_bit 12 c AND 0x3f),
                 0x80 + (drop_bit 6 c AND 0x3f), 0x80 + (c AND 0x3f)]
        = utf8_encoding (unat c)"
proof -
  have low: "(ucast (0x80 + (x AND 0x3f)) :: 8 word) = of_nat (0x80 + unat x mod 0x40)"
    for x :: "32 word"
    using lead_byte(1) [of "x AND 0x3f"] by (simp add: unat_and_low)
  show "map ucast [c] = utf8_encoding (unat c)" if "c < 0x80"
  proof -
    from that have "unat c < 0x80" by (simp add: word_less_nat_alt)
    then have "utf8_encoding (unat c) = [of_nat (unat c)]"
      by (simp only: utf8_encoding_def if_True)
    then show ?thesis by (simp only: ucast_byte list.map)
  qed
  show "map ucast [0xc0 + (drop_bit 6 c AND 0x1f), 0x80 + (c AND 0x3f)]
        = utf8_encoding (unat c)" if "\<not> c < 0x80" "c < 0x800"
  proof -
    from that have b: "\<not> unat c < 0x80" "unat c < 0x800"
      by (simp_all add: word_less_nat_alt)
    then have "unat c div 64 < 32" by simp
    then have "unat (drop_bit 6 c AND 0x1f) = unat c div 64"
      by (simp add: unat_and_low unat_shift)
    moreover from this \<open>unat c div 64 < 32\<close> have "unat (drop_bit 6 c AND 0x1f) < 32"
      by simp
    ultimately have "(ucast (0xc0 + (drop_bit 6 c AND 0x1f)) :: 8 word)
        = of_nat (0xC0 + unat c div 0x40)"
      using lead_byte(2) [of "drop_bit 6 c AND 0x1f"] by simp
    with b low [of c] show ?thesis by (simp add: utf8_encoding_def)
  qed
  show "map ucast [0xe0 + (drop_bit 12 c AND 0xf), 0x80 + (drop_bit 6 c AND 0x3f),
                 0x80 + (c AND 0x3f)]
        = utf8_encoding (unat c)" if "\<not> c < 0x800" "c < 0x10000"
  proof -
    from that have b: "\<not> unat c < 0x800" "unat c < 0x10000"
      by (simp_all add: word_less_nat_alt)
    then have c: "\<not> unat c < 0x80" by simp
    from b have "unat c div 4096 < 16" by simp
    then have "unat (drop_bit 12 c AND 0xf) = unat c div 4096"
      by (simp add: unat_and_low unat_shift)
    moreover from this \<open>unat c div 4096 < 16\<close> have "unat (drop_bit 12 c AND 0xf) < 16"
      by simp
    ultimately have "(ucast (0xe0 + (drop_bit 12 c AND 0xf)) :: 8 word)
        = of_nat (0xE0 + unat c div 0x1000)"
      using lead_byte(3) [of "drop_bit 12 c AND 0xf"] by simp
    with b c low [of c] low [of "drop_bit 6 c"] show ?thesis
      by (simp add: utf8_encoding_def unat_shift)
  qed
  show "map ucast [0xf0 + (drop_bit 18 c AND 0x7), 0x80 + (drop_bit 12 c AND 0x3f),
                 0x80 + (drop_bit 6 c AND 0x3f), 0x80 + (c AND 0x3f)]
        = utf8_encoding (unat c)" if "\<not> c < 0x10000" "c < 0x110000"
  proof -
    from that have b: "\<not> unat c < 0x10000" "unat c < 0x110000"
      by (simp_all add: word_less_nat_alt)
    then have c: "\<not> unat c < 0x80" "\<not> unat c < 0x800" by simp_all
    from b have "unat c div 262144 < 8" by simp
    then have "unat (drop_bit 18 c AND 0x7) = unat c div 262144"
      by (simp add: unat_and_low unat_shift)
    moreover from this \<open>unat c div 262144 < 8\<close> have "unat (drop_bit 18 c AND 0x7) < 8"
      by simp
    ultimately have "(ucast (0xf0 + (drop_bit 18 c AND 0x7)) :: 8 word)
        = of_nat (0xF0 + unat c div 0x40000)"
      using lead_byte(4) [of "drop_bit 18 c AND 0x7"] by simp
    with b c low [of c] low [of "drop_bit 6 c"] low [of "drop_bit 12 c"] show ?thesis
      by (simp add: utf8_encoding_def unat_shift)
  qed
qed

lemma putc_all_contents:
  assumes r: "ready clz0 (4 + k) b h" and kb: "4 + k \<le> 2 ^ 30" and l: "length xs \<le> 4"
  shows "\<exists>b' h'. putc_all clz0 b h xs = Some (b', h') \<and> ready clz0 k b' h'
      \<and> init b' = init b
      \<and> contents b' h' = map_option (\<lambda>cs. cs @ map ucast xs) (contents b h)"
proof -
  let ?k = "k + (4 - length xs)"
  have e: "length xs + ?k = 4 + k" using l by simp
  from r have inv: "buf_inv b" by (simp add: ready_def)
  from r e have r2: "ready clz0 (length xs + ?k) b h" by (simp only:)
  from kb e have k2: "length xs + ?k \<le> 2 ^ 30" by (simp only:)
  from putc_all_ready [OF r2 k2]
  obtain b' h' where s: "putc_all clz0 b h xs = Some (b', h')" "ready clz0 ?k b' h'"
      "init b' = init b"
      "load (mem h') (ptr (buf b')) (unat (written b'))
          = load (mem h) (ptr (buf b)) (unat (written b)) @ map ucast xs"
    by blast
  from s(2) have r': "ready clz0 k b' h'" by (rule ready_mono) simp
  then have inv': "buf_inv b'" by (simp add: ready_def)
  from s(4) have "contents b' h' = map_option (\<lambda>cs. cs @ map ucast xs) (contents b h)"
    by (simp add: contents_inv [OF inv] contents_inv [OF inv'])
  with s(1,3) r' show ?thesis by blast
qed

lemma put_utf8_appends:
  assumes r: "ready clz0 (4 + k) b h" and kb: "4 + k \<le> 2 ^ 30"
  shows "\<exists>b' h'. mxbuf_put_utf8 clz0 b h c = Some (c < 0x110000, b', h')
      \<and> ready clz0 k b' h' \<and> init b' = init b
      \<and> contents b' h' =
          map_option (\<lambda>cs. cs @ (if c < 0x110000 then utf8_encoding (unat c) else []))
            (contents b h)
      \<and> (if c < 0x110000 then True else b' = b \<and> h' = h)"
proof -
  note step = putc_all_contents [OF r kb]
  consider (a) "c < 0x80" | (b) "\<not> c < 0x80" "c < 0x800"
    | (c) "\<not> c < 0x800" "c < 0x10000" | (d) "\<not> c < 0x10000" "c < 0x110000"
    | (e) "\<not> c < 0x110000"
    by blast
  then show ?thesis
  proof cases
    case a
    then have lt: "c < 0x110000" by (simp add: word_less_nat_alt)
    from step [of "[c]"]
    obtain b' h' where s: "putc_all clz0 b h [c] = Some (b', h')"
        "ready clz0 k b' h'" "init b' = init b"
        "contents b' h' = map_option (\<lambda>cs. cs @ map ucast [c]) (contents b h)"
      by auto
    from s(4) have "contents b' h' = map_option (\<lambda>cs. cs @ utf8_encoding (unat c)) (contents b h)"
      by (simp only: utf8_code_bytes(1) [OF a])
    with s(1-3) a lt show ?thesis
      by (simp add: mxbuf_put_utf8_def del: putc_all.simps)
  next
    case b
    then have lt: "c < 0x110000" by (simp add: word_less_nat_alt)
    from step [of "[0xc0 + (drop_bit 6 c AND 0x1f), 0x80 + (c AND 0x3f)]"]
    obtain b' h' where s: "putc_all clz0 b h [0xc0 + (drop_bit 6 c AND 0x1f), 0x80 + (c AND 0x3f)] = Some (b', h')"
        "ready clz0 k b' h'" "init b' = init b"
        "contents b' h' = map_option (\<lambda>cs. cs @ map ucast [0xc0 + (drop_bit 6 c AND 0x1f), 0x80 + (c AND 0x3f)]) (contents b h)"
      by auto
    from s(4) have "contents b' h' = map_option (\<lambda>cs. cs @ utf8_encoding (unat c)) (contents b h)"
      by (simp only: utf8_code_bytes(2) [OF b])
    with s(1-3) b lt show ?thesis
      by (simp add: mxbuf_put_utf8_def del: putc_all.simps)
  next
    case c
    then have lt: "c < 0x110000" "\<not> c < 0x80" by (simp_all add: word_less_nat_alt)
    from step [of "[0xe0 + (drop_bit 12 c AND 0xf), 0x80 + (drop_bit 6 c AND 0x3f), 0x80 + (c AND 0x3f)]"]
    obtain b' h' where s: "putc_all clz0 b h [0xe0 + (drop_bit 12 c AND 0xf), 0x80 + (drop_bit 6 c AND 0x3f), 0x80 + (c AND 0x3f)] = Some (b', h')"
        "ready clz0 k b' h'" "init b' = init b"
        "contents b' h' = map_option (\<lambda>cs. cs @ map ucast [0xe0 + (drop_bit 12 c AND 0xf), 0x80 + (drop_bit 6 c AND 0x3f), 0x80 + (c AND 0x3f)]) (contents b h)"
      by auto
    from s(4) have "contents b' h' = map_option (\<lambda>cs. cs @ utf8_encoding (unat c)) (contents b h)"
      by (simp only: utf8_code_bytes(3) [OF c])
    with s(1-3) c lt show ?thesis
      by (simp add: mxbuf_put_utf8_def del: putc_all.simps)
  next
    case d
    then have lt: "\<not> c < 0x80" "\<not> c < 0x800" by (simp_all add: word_less_nat_alt)
    from step [of "[0xf0 + (drop_bit 18 c AND 0x7), 0x80 + (drop_bit 12 c AND 0x3f), 0x80 + (drop_bit 6 c AND 0x3f), 0x80 + (c AND 0x3f)]"]
    obtain b' h' where s: "putc_all clz0 b h [0xf0 + (drop_bit 18 c AND 0x7), 0x80 + (drop_bit 12 c AND 0x3f), 0x80 + (drop_bit 6 c AND 0x3f), 0x80 + (c AND 0x3f)] = Some (b', h')"
        "ready clz0 k b' h'" "init b' = init b"
        "contents b' h' = map_option (\<lambda>cs. cs @ map ucast [0xf0 + (drop_bit 18 c AND 0x7), 0x80 + (drop_bit 12 c AND 0x3f), 0x80 + (drop_bit 6 c AND 0x3f), 0x80 + (c AND 0x3f)]) (contents b h)"
      by auto
    from s(4) have "contents b' h' = map_option (\<lambda>cs. cs @ utf8_encoding (unat c)) (contents b h)"
      by (simp only: utf8_code_bytes(4) [OF d])
    with s(1-3) d lt show ?thesis
      by (simp add: mxbuf_put_utf8_def del: putc_all.simps)
  next
    case e
    then have lt: "\<not> c < 0x80" "\<not> c < 0x800" "\<not> c < 0x10000"
      by (simp_all add: word_less_nat_alt)
    from r have "ready clz0 k b h" by (rule ready_mono) simp
    moreover have "contents b h = map_option (\<lambda>cs. cs @ []) (contents b h)"
      by (cases "contents b h") simp_all
    ultimately show ?thesis using e lt
      by (simp add: mxbuf_put_utf8_def)
  qed
qed

lemma substr_to_end:
  "mxstr_substr str s (len str) =
     (s \<le> len str, \<lparr>ptr = ptr str + min s (len str), len = len str - min s (len str)\<rparr>)"
  by (auto simp: mxstr_substr_def Let_def min_def)

lemma buf_inv_suffix:
  "buf_inv (b\<lparr>buf := str, available := snd (mxstr_substr str s (len str))\<rparr>)"
proof -
  have "len str - min s (len str) \<le> len str"
    by (rule word_sub_le) simp
  then show ?thesis by (simp add: substr_to_end buf_inv_def)
qed

lemma buf_inv_advance:
  assumes "buf_inv b" "k \<le> len (available b)"
  shows "buf_inv (b\<lparr>available := \<lparr>ptr = ptr (available b) + k, len = len (available b) - k\<rparr>\<rparr>)"
proof -
  from assms(1) have le: "len (available b) \<le> len (buf b)"
    and pa: "ptr (available b) = ptr (buf b) + (len (buf b) - len (available b))"
    by (simp_all add: buf_inv_def)
  have "len (available b) - k \<le> len (available b)" using assms(2) by (rule word_sub_le)
  with le have "len (available b) - k \<le> len (buf b)" by simp
  then show ?thesis
    by (simp add: buf_inv_def pa)
qed

lemma min_macro_le: "min_macro (a::64 word) b \<le> a"
  by (auto simp: min_macro_def)

lemma require_inv:
  "buf_inv b \<Longrightarrow> mxbuf_require clz0 b h n = Some (b', h') \<Longrightarrow> buf_inv b'"
proof -
  assume inv: "buf_inv b" and r: "mxbuf_require clz0 b h n = Some (b', h')"
  show ?thesis
  proof (cases "len (available b) < n")
    case False
    with r inv show ?thesis by (simp add: mxbuf_require_def)
  next
    case True
    with r have "\<exists>a k s. b' = b\<lparr>buf := \<lparr>ptr = a, len = k\<rparr>,
        available := snd (mxstr_substr \<lparr>ptr = a, len = k\<rparr> s k)\<rparr>"
      by (auto simp: mxbuf_require_def Let_def mxstr_def split: bind_splits)
    then obtain a k s where "b' = b\<lparr>buf := \<lparr>ptr = a, len = k\<rparr>,
        available := snd (mxstr_substr \<lparr>ptr = a, len = k\<rparr> s k)\<rparr>"
      by blast
    then show ?thesis
      using buf_inv_suffix [where b = b and str = "\<lparr>ptr = a, len = k\<rparr>" and s = s] by simp
  qed
qed

lemma trim_inv:
  "buf_inv b \<Longrightarrow> mxbuf_trim b h = Some (b', h') \<Longrightarrow> buf_inv b'"
proof -
  assume inv: "buf_inv b" and r: "mxbuf_trim b h = Some (b', h')"
  show ?thesis
  proof (cases "ptr (buf b) \<noteq> ptr (init b)")
    case False
    with r inv show ?thesis by (simp add: mxbuf_trim_def)
  next
    case True
    with r have "\<exists>a k. b' = b\<lparr>buf := \<lparr>ptr = a, len = k\<rparr>,
        available := snd (mxstr_substr \<lparr>ptr = a, len = k\<rparr> k k)\<rparr>"
      by (auto simp: mxbuf_trim_def Let_def mxstr_def split: bind_splits)
    then obtain a k where "b' = b\<lparr>buf := \<lparr>ptr = a, len = k\<rparr>,
        available := snd (mxstr_substr \<lparr>ptr = a, len = k\<rparr> k k)\<rparr>"
      by blast
    then show ?thesis
      using buf_inv_suffix [where b = b and str = "\<lparr>ptr = a, len = k\<rparr>" and s = k] by simp
  qed
qed

lemma write_inv:
  assumes "buf_inv b" "mxbuf_write clz0 b h str = Some (n, b', h')"
  shows "buf_inv b'"
proof -
  from assms(2) obtain b1 h1 where r: "mxbuf_require clz0 b h (len str) = Some (b1, h1)"
    and b': "b' = b1\<lparr>available := \<lparr>ptr = ptr (available b1) + min_macro (len (available b1)) (len str),
        len = len (available b1) - min_macro (len (available b1)) (len str)\<rparr>\<rparr>"
    by (auto simp: mxbuf_write_def mxstr_write_def Let_def split: bind_splits)
  from require_inv [OF assms(1) r] show ?thesis
    unfolding b' by (rule buf_inv_advance) (rule min_macro_le)
qed

lemma write_chars_inv:
  assumes "buf_inv b" "mxbuf_write_chars clz0 b h c k = Some (n, b', h')"
  shows "buf_inv b'"
proof -
  from assms(2) obtain b1 h1 where r: "mxbuf_require clz0 b h k = Some (b1, h1)"
    and b': "b' = b1\<lparr>available := \<lparr>ptr = ptr (available b1) + min_macro (len (available b1)) k,
        len = len (available b1) - min_macro (len (available b1)) k\<rparr>\<rparr>"
    by (auto simp: mxbuf_write_chars_def mxstr_write_chars_def Let_def split: bind_splits)
  from require_inv [OF assms(1) r] show ?thesis
    unfolding b' by (rule buf_inv_advance) (rule min_macro_le)
qed

lemma mxstr_putc_eq:
  "mxstr_putc m s c =
     (if len s = 0 then (False, s, m)
      else (True, \<lparr>ptr = ptr s + 1, len = len s - 1\<rparr>, m(ptr s := c)))"
  by (auto simp: mxstr_putc_def mxstr_empty_def mxstr_consume_def min_macro_def Let_def)

lemma putc_inv:
  assumes "buf_inv b" "mxbuf_putc clz0 b h c = Some (ok, b', h')"
  shows "buf_inv b'"
proof -
  from assms(2) obtain b1 h1 where r: "mxbuf_require clz0 b h 1 = Some (b1, h1)"
    and b': "b' = (if len (available b1) = 0 then b1\<lparr>available := available b1\<rparr>
       else b1\<lparr>available := \<lparr>ptr = ptr (available b1) + 1,
        len = len (available b1) - 1\<rparr>\<rparr>)"
    by (auto simp: mxbuf_putc_def mxstr_putc_eq split: bind_splits if_splits)
  note inv1 = require_inv [OF assms(1) r]
  show ?thesis
  proof (cases "len (available b1) = 0")
    case True
    with inv1 b' show ?thesis by simp
  next
    case False
    then have "1 \<le> len (available b1)" by (simp add: word_le_nat_alt unat_gt_0 [symmetric] Suc_le_eq)
    with inv1 have "buf_inv (b1\<lparr>available := \<lparr>ptr = ptr (available b1) + 1,
        len = len (available b1) - 1\<rparr>\<rparr>)"
      by (rule buf_inv_advance)
    with False b' show ?thesis by simp
  qed
qed

lemma putc_all_inv:
  "buf_inv b \<Longrightarrow> putc_all clz0 b h xs = Some (b', h') \<Longrightarrow> buf_inv b'"
proof (induction xs arbitrary: b h)
  case Nil
  then show ?case by simp
next
  case (Cons x xs)
  from Cons.prems(2) obtain ok b1 h1 where s: "mxbuf_putc clz0 b h (ucast x) = Some (ok, b1, h1)"
      "putc_all clz0 b1 h1 xs = Some (b', h')"
    by (auto split: bind_splits)
  from putc_inv [OF Cons.prems(1) s(1)] s(2) show ?case by (rule Cons.IH)
qed

lemma put_utf8_inv:
  assumes "buf_inv b" "mxbuf_put_utf8 clz0 b h c = Some (ok, b', h')"
  shows "buf_inv b'"
proof -
  from assms(2) have "(b' = b) \<or> (\<exists>xs. putc_all clz0 b h xs = Some (b', h'))"
    by (auto simp: mxbuf_put_utf8_def simp del: putc_all.simps split: if_splits bind_splits)
  with assms(1) show ?thesis by (auto intro: putc_all_inv)
qed

lemma free_inv: "mxbuf_free b h = Some (b', h') \<Longrightarrow> buf_inv b'"
  by (auto simp: mxbuf_free_def buf_inv_def split: bind_splits)

lemma create_inv: "buf_inv (mxbuf_create p n)"
  by (simp add: mxbuf_create_def buf_inv_def Let_def)

lemma reset_inv: "buf_inv (mxbuf_reset b)"
  by (simp add: mxbuf_reset_def buf_inv_def)

lemma str_in_bounds:
  "buf_inv b \<Longrightarrow> mxbuf_str b = Some \<lparr>ptr = ptr (buf b), len = written b\<rparr> \<and> written b \<le> len (buf b)"
  by (simp add: mxbuf_str_def mxstr_prefix_def offset_written written_def word_sub_le buf_inv_def)

lemma exec_inv:
  assumes "buf_inv b" "exec clz0 op (b, h) = Some (b', h')"
  shows "buf_inv b'"
proof (cases op)
  case (Create p n) with assms(2) show ?thesis by (auto simp: create_inv)
next
  case Reset with assms(2) show ?thesis by (auto simp: reset_inv)
next
  case Free with assms(2) show ?thesis by (auto intro: free_inv)
next
  case Trim with assms show ?thesis by (auto intro: trim_inv)
next
  case (Require n) with assms show ?thesis by (auto intro: require_inv)
next
  case (Write str) with assms show ?thesis by (auto intro: write_inv)
next
  case (Putc c) with assms show ?thesis by (auto intro: putc_inv)
next
  case (Put_utf8 c) with assms show ?thesis by (auto intro: put_utf8_inv)
next
  case (Write_chars c n) with assms show ?thesis by (auto intro: write_chars_inv)
qed

lemma exec_all_inv:
  "buf_inv b \<Longrightarrow> exec_all clz0 ops (b, h) = Some (b', h') \<Longrightarrow> buf_inv b'"
proof (induction ops arbitrary: b h)
  case Nil
  then show ?case by simp
next
  case (Cons op ops)
  from Cons.prems(2) obtain b1 h1 where s: "exec clz0 op (b, h) = Some (b1, h1)"
      "exec_all clz0 ops (b1, h1) = Some (b', h')"
    by (auto split: option.splits)
  from exec_inv [OF Cons.prems(1) s(1)] s(2) show ?case by (rule Cons.IH)
qed

section \<open>The claims about buffers\<close>

text \<open>
  C9.  \<open>mxbuf_create\<close> establishes, and every sequence of buffer operations
  (\<open>mxbuf_create\<close>, \<open>mxbuf_reset\<close>, \<open>mxbuf_free\<close>, \<open>mxbuf_trim\<close>, \<open>mxbuf_require\<close>,
  \<open>mxbuf_write\<close>, \<open>mxbuf_putc\<close>, \<open>mxbuf_put_utf8\<close>, \<open>mxbuf_write_chars\<close>) that runs to
  completion preserves, the invariant that the available view is a suffix of the storage:
  its length is at most the storage length and it starts at
  \<open>buf.ptr + (buf.len - available.len)\<close>.  So \<open>mxbuf_str\<close> passes its assertion and
  returns the prefix of the storage of the written length, which is in bounds.
\<close>

theorem buffer_invariant_preserved:
  "buf_inv (mxbuf_create p n) \<and>
   (buf_inv b \<longrightarrow> exec_all clz0 ops (b, h) = Some (b', h') \<longrightarrow>
      buf_inv b' \<and> mxbuf_str b' = Some \<lparr>ptr = ptr (buf b'), len = written b'\<rparr>
      \<and> written b' \<le> len (buf b'))"
  using create_inv [of p n] exec_all_inv [of b clz0 ops h b' h'] str_in_bounds [of b']
  by blast

theorem buffer_invariant_preserved_witness:
  "buf_inv (mxbuf_create 0 0) \<and>
   map_option fst (exec_all 32 [Putc 0x41, Write \<lparr>ptr = 0x342, len = 5\<rparr>, Trim, Put_utf8 0x20AC,
       Reset, Write_chars 0x2A 3] (mxbuf_create 0 0, sample_heap)) =
     Some \<lparr>buf = \<lparr>ptr = 0x50000, len = 16\<rparr>, available = \<lparr>ptr = 0x50003, len = 13\<rparr>,
            init = \<lparr>ptr = 0, len = 0\<rparr>\<rparr> \<and>
   buf_inv \<lparr>buf = \<lparr>ptr = 0x50000, len = 16\<rparr>, available = \<lparr>ptr = 0x50003, len = 13\<rparr>,
            init = \<lparr>ptr = 0, len = 0\<rparr>\<rparr> \<and>
   mxbuf_str \<lparr>buf = \<lparr>ptr = 0x50000, len = 16\<rparr>, available = \<lparr>ptr = 0x50003, len = 13\<rparr>,
            init = \<lparr>ptr = 0, len = 0\<rparr>\<rparr> = Some \<lparr>ptr = 0x50000, len = 3\<rparr>"
proof -
  let ?B = "\<lparr>buf = \<lparr>ptr = 0x50000, len = 16\<rparr>, available = \<lparr>ptr = 0x50003, len = 13\<rparr>,
            init = \<lparr>ptr = 0, len = 0\<rparr>\<rparr>"
  let ?ops = "[Putc 0x41, Write \<lparr>ptr = 0x342, len = 5\<rparr>, Trim, Put_utf8 0x20AC,
       Reset, Write_chars 0x2A 3]"
  have e: "map_option fst (exec_all 32 ?ops (mxbuf_create 0 0, sample_heap)) = Some ?B"
    by code_simp
  then obtain h' where s: "exec_all 32 ?ops (mxbuf_create 0 0, sample_heap) = Some (?B, h')"
    by auto
  have i: "buf_inv (mxbuf_create 0 0)" by code_simp
  have w: "written ?B = 3" by code_simp
  from buffer_invariant_preserved [of 0 0 "mxbuf_create 0 0" 32 ?ops sample_heap ?B h'] i s
  have "buf_inv ?B \<and> mxbuf_str ?B = Some \<lparr>ptr = ptr (buf ?B), len = written ?B\<rparr>"
    by blast
  with e i w show ?thesis by simp
qed

lemma require_no_growth:
  "\<not> len (available b) < sz \<Longrightarrow> mxbuf_require clz0 b h sz = Some (b, h)"
  by (simp add: mxbuf_require_def)

lemma alloc_okE:
  assumes "alloc_ok h"
  obtains q qs where "pool h = q # qs" "q \<noteq> 0"
  using assms by (cases "pool h") (simp_all add: alloc_ok_def)

text \<open>
  When space is left, or when the total capacity is between 1 and \<open>2^31 - 1\<close> bytes (or
  is zero on a target whose \<open>__builtin_clz(0)\<close> lies between 1 and 32) and the allocation
  succeeds, \<open>mxbuf_require(buf, 1)\<close> leaves at least one byte available, \<open>mxbuf_putc\<close>
  returns true, the written length grows by one and the byte is stored at the end of the
  written region.
\<close>

lemma mxbuf_putc_succeeds:
  assumes inv: "buf_inv b" and own: "owned b h"
    and c: "len (available b) \<noteq> 0 \<or> (growable clz0 b \<and> alloc_ok h)"
  shows "\<exists>b1 h1 b' h'. mxbuf_require clz0 b h 1 = Some (b1, h1) \<and> len (available b1) \<noteq> 0
      \<and> mxbuf_putc clz0 b h c = Some (True, b', h')
      \<and> mxbuf_str b' = Some \<lparr>ptr = ptr (buf b'), len = written b + 1\<rparr>
      \<and> mem h' (ptr (buf b') + written b) = c"
proof (cases "len (available b) = 0")
  case False
  let ?b = "b\<lparr>available := \<lparr>ptr = ptr (available b) + 1, len = len (available b) - 1\<rparr>\<rparr>"
  from False have r: "mxbuf_require clz0 b h 1 = Some (b, h)"
    by (intro require_no_growth) simp
  from False have "1 \<le> len (available b)"
    by (simp add: word_le_nat_alt unat_gt_0 [symmetric] Suc_le_eq)
  with inv have inv': "buf_inv ?b" by (rule buf_inv_advance)
  from inv have pa: "ptr (available b) = ptr (buf b) + written b"
    by (simp add: buf_inv_def written_def)
  have w': "written ?b = written b + 1" by (simp add: written_def)
  from str_in_bounds [OF inv'] w'
  have "mxbuf_str ?b = Some \<lparr>ptr = ptr (buf ?b), len = written b + 1\<rparr>" by simp
  with r False putc_no_growth [OF False, of clz0 h c] pa show ?thesis by simp
next
  case True
  with c have cap: "growable clz0 b" and a: "alloc_ok h" by simp_all
  from a obtain q qs where pool: "pool h = q # qs" "q \<noteq> 0" by (rule alloc_okE)
  have need: "len (available b) < 1" using True by simp
  from require_grows [OF inv own need cap _ pool]
  obtain n k where n: "len (buf b) < n"
    and r: "mxbuf_require clz0 b h 1 =
            Some (b\<lparr>buf := \<lparr>ptr = q, len = n\<rparr>,
                    available := \<lparr>ptr = q + written b, len = n - written b\<rparr>\<rparr>,
                  grown_heap b h q n qs)"
    by auto
  have w: "written b = len (buf b)" using True by (simp add: written_def)
  have nz: "n - written b \<noteq> 0" using n w by simp
  from putc_growth [OF inv own True cap pool, of c]
  obtain n' k' where n': "len (buf b) < n'"
    and p: "mxbuf_putc clz0 b h c =
            Some (True,
                  b\<lparr>buf := \<lparr>ptr = q, len = n'\<rparr>,
                    available := \<lparr>ptr = q + written b + 1, len = n' - written b - 1\<rparr>\<rparr>,
                  (grown_heap b h q n' qs)
                    \<lparr>mem := (mem (grown_heap b h q n' qs))(q + written b := c)\<rparr>)"
    by blast
  let ?b = "b\<lparr>buf := \<lparr>ptr = q, len = n'\<rparr>,
                    available := \<lparr>ptr = q + written b + 1, len = n' - written b - 1\<rparr>\<rparr>"
  have w1: "written b + 1 \<le> n'" using n' unfolding w by (rule inc_le)
  have la: "n' - written b - 1 = n' - (written b + 1)" by simp
  have inv': "buf_inv ?b"
    unfolding buf_inv_def using w1 by (simp add: la word_sub_le)
  have w': "written ?b = written b + 1" by (simp add: written_def)
  from str_in_bounds [OF inv'] w'
  have "mxbuf_str ?b = Some \<lparr>ptr = ptr (buf ?b), len = written b + 1\<rparr>" by simp
  with r nz p show ?thesis by simp
qed

lemma mxbuf_putc_succeeds_example:
  "buf_inv (mxbuf_create 0 0) \<and> owned (mxbuf_create 0 0) sample_heap
   \<and> growable 32 (mxbuf_create 0 0) \<and> alloc_ok sample_heap
   \<and> (\<exists>b1 h1 b' h'. mxbuf_require 32 (mxbuf_create 0 0) sample_heap 1 = Some (b1, h1)
         \<and> len (available b1) \<noteq> 0
         \<and> mxbuf_putc 32 (mxbuf_create 0 0) sample_heap 0x41 = Some (True, b', h')
         \<and> mxbuf_str b' = Some \<lparr>ptr = ptr (buf b'), len = 1\<rparr>
         \<and> mem h' (ptr (buf b')) = 0x41)"
proof -
  have h: "buf_inv (mxbuf_create 0 0)" "owned (mxbuf_create 0 0) sample_heap"
    "growable 32 (mxbuf_create 0 0)" "alloc_ok sample_heap"
    by code_simp+
  have w: "written (mxbuf_create 0 0) = 0" by code_simp
  from h have "len (available (mxbuf_create 0 0)) \<noteq> 0
      \<or> (growable 32 (mxbuf_create 0 0) \<and> alloc_ok sample_heap)"
    by simp
  from mxbuf_putc_succeeds [OF h(1,2) this, of "0x41"] w h show ?thesis by simp
qed

text \<open>
  C7 fails on the code.  First run: a buffer created over a caller-supplied range of
  4 GiB + 4 bytes and filled by \<open>mxbuf_write_chars\<close> satisfies the invariant, and
  \<open>mxbuf_putc\<close> on it returns false: \<open>mxutil_size_p2\<close> takes a \<open>uint32_t\<close>, so the
  capacity \<open>0x100000004\<close> is cut to 4, the new size is 8, and the available view that
  \<open>mxstr_substr\<close> clamps into the 8-byte block is empty.  Second run: at a capacity of
  \<open>2^31\<close> bytes the shift count in \<open>mxutil_size_p2\<close> is 32 and the call has no defined
  result.  Third run: on a buffer over a 1-byte range the second \<open>mxbuf_putc\<close> returns
  true, but the new block is allocated without copying the byte written before, so the
  contents are not the old contents followed by the new byte.
\<close>

theorem mxbuf_putc_fails:
  "do { (n, b, h) \<leftarrow> mxbuf_write_chars 32 huge_range sample_heap 0 0x100000004;
        (ok, b', h') \<leftarrow> mxbuf_putc 32 b h 0x41;
        Some (n, buf_inv b, owned b h, len (buf b), len (available b), ok) }
   = Some (0x100000004, True, True, 0x100000004, 0, False)
   \<and> mxbuf_putc 32 \<lparr>buf = \<lparr>ptr = 0x1000, len = 0x80000000\<rparr>,
                     available = \<lparr>ptr = 0x80001000, len = 0\<rparr>,
                     init = \<lparr>ptr = 0x1000, len = 0x80000000\<rparr>\<rparr> sample_heap 0x41 = None
   \<and> do { (ok1, b1, h1) \<leftarrow> mxbuf_putc 32 (mxbuf_create 0x100 1) sample_heap 0x41;
        (ok2, b2, h2) \<leftarrow> mxbuf_putc 32 b1 h1 0x42;
        Some (ok1, contents b1 h1, ok2, contents b2 h2) }
   = Some (True, Some [0x41], True, Some [0, 0x42])"
  by code_simp

text \<open>
  C2, as stated, fails: for a buffer of capacity 4 with nothing written, requiring 8
  bytes makes the capacity 16, where the claim's formula (the next power of two at or
  above 4, and at or above 0 + 8) gives 8.  \<open>mxutil_size_p2\<close> returns the power of two
  strictly above its argument.
\<close>

theorem mxbuf_require_growth_counterexample:
  "map_option (\<lambda>(b, h). len (buf b)) (mxbuf_require 32 (mxbuf_create 0x100 4) sample_heap 8)
     = Some 16
   \<and> written (mxbuf_create 0x100 4) = 0
   \<and> spec_growth_capacity 4 0 8 = 8"
  by code_simp

text \<open>
  C2, amended.  Whenever more space is required than is available, with the request
  below \<open>2^31\<close> bytes and the total capacity between 1 and \<open>2^31 - 1\<close> bytes (or zero on
  a target whose \<open>__builtin_clz(0)\<close> lies between 1 and 32), and the allocation succeeds,
  the new total capacity chosen by \<open>mxbuf_require\<close> is a power of two strictly greater
  than the current total capacity and strictly greater than the number of additional
  bytes requested; the written length is unchanged; and when the storage being grown is
  the buffer's own allocation (not the caller's initial range) the bytes already written
  are preserved at the start of the reallocated storage.
\<close>

theorem mxbuf_require_growth:
  assumes inv: "buf_inv b" and own: "owned b h"
    and need: "len (available b) < sz"
    and cap: "growable clz0 b"
    and szb: "sz < 0x80000000"
    and a: "alloc_ok h"
  shows "\<exists>b' h' k. mxbuf_require clz0 b h sz = Some (b', h')
      \<and> k < 32 \<and> unat (len (buf b')) = 2 ^ k
      \<and> len (buf b) < len (buf b') \<and> sz < len (buf b')
      \<and> mxbuf_str b' = Some \<lparr>ptr = ptr (buf b'), len = written b\<rparr>
      \<and> (ptr (buf b) \<noteq> ptr (init b) \<longrightarrow> contents b' h' = contents b h)"
proof -
  from a obtain q qs where pool: "pool h = q # qs" "q \<noteq> 0" by (rule alloc_okE)
  from require_grows [OF inv own need cap szb pool]
  obtain n k where n: "k < 32" "unat n = 2 ^ k" "len (buf b) < n" "sz < n"
    and r: "mxbuf_require clz0 b h sz =
            Some (b\<lparr>buf := \<lparr>ptr = q, len = n\<rparr>,
                    available := \<lparr>ptr = q + written b, len = n - written b\<rparr>\<rparr>,
                  grown_heap b h q n qs)"
    by blast
  let ?b = "b\<lparr>buf := \<lparr>ptr = q, len = n\<rparr>,
                    available := \<lparr>ptr = q + written b, len = n - written b\<rparr>\<rparr>"
  let ?h = "grown_heap b h q n qs"
  have wl: "written b \<le> len (buf b)"
    using inv by (simp add: written_def buf_inv_def word_sub_le)
  with n(3) have wn: "written b \<le> n" by simp
  have inv': "buf_inv ?b"
    unfolding buf_inv_def using wn by (simp add: word_sub_le)
  have w': "written ?b = written b" by (simp add: written_def)
  from str_in_bounds [OF inv'] w'
  have s: "mxbuf_str ?b = Some \<lparr>ptr = ptr (buf ?b), len = written b\<rparr>" by simp
  have "contents ?b ?h = contents b h" if ne: "ptr (buf b) \<noteq> ptr (init b)"
  proof -
    have "load (mem ?h) q (unat (written b)) = load (mem h) (ptr (buf b)) (unat (written b))"
    proof (rule load_cong)
      fix i assume "i < unat (written b)"
      moreover have "unat (written b) \<le> unat (len (buf b))"
        using wl by (simp add: word_le_nat_alt)
      ultimately have "i < unat (len (buf b))" by simp
      with ne n(3) show "mem ?h (q + of_nat i) = mem h (ptr (buf b) + of_nat i)"
        by (intro grown_heap_mem) simp_all
    qed
    then show ?thesis
      by (simp add: contents_inv [OF inv] contents_inv [OF inv'] w')
  qed
  with r n s show ?thesis by simp
qed

theorem mxbuf_require_growth_witness:
  "buf_inv sample_buffer \<and> owned sample_buffer sample_buffer_heap
   \<and> len (available sample_buffer) < 8 \<and> growable 32 sample_buffer
   \<and> alloc_ok sample_buffer_heap \<and> ptr (buf sample_buffer) \<noteq> ptr (init sample_buffer)
   \<and> (\<exists>b' h' k. mxbuf_require 32 sample_buffer sample_buffer_heap 8 = Some (b', h')
         \<and> k < 32 \<and> unat (len (buf b')) = 2 ^ k
         \<and> len (buf sample_buffer) < len (buf b') \<and> 8 < len (buf b')
         \<and> mxbuf_str b' = Some \<lparr>ptr = ptr (buf b'), len = 3\<rparr>
         \<and> contents b' h' = Some [0, 1, 2])"
proof -
  have h: "buf_inv sample_buffer" "owned sample_buffer sample_buffer_heap"
    "len (available sample_buffer) < 8" "growable 32 sample_buffer"
    "(8::64 word) < 0x80000000" "alloc_ok sample_buffer_heap"
    by code_simp+
  have n: "ptr (buf sample_buffer) \<noteq> ptr (init sample_buffer)" by code_simp
  have w: "written sample_buffer = 3" by code_simp
  have c: "contents sample_buffer sample_buffer_heap = Some [0, 1, 2]" by code_simp
  from mxbuf_require_growth [OF h] n w c h show ?thesis by simp
qed

lemma utf8_encoding_length:
  "length (utf8_encoding (unat (c::32 word))) =
     (if c < 0x80 then 1 else if c < 0x800 then 2 else if c < 0x10000 then 3 else 4)"
  by (simp add: utf8_encoding_def word_less_nat_alt)

lemma utf8_encoding_examples:
  "utf8_encoding 0x41 = [0x41]"
  "utf8_encoding 0x20AC = [0xE2, 0x82, 0xAC]"
  "utf8_encoding 0x1F600 = [0xF0, 0x9F, 0x98, 0x80]"
  "utf8_encoding 0xD800 = [0xED, 0xA0, 0x80]"
  by (simp_all add: utf8_encoding_def)

text \<open>
  For every buffer that can take four more bytes one at a time (they fit; or the capacity
  is at most \<open>2^30\<close> bytes, the storage is the buffer's own allocation or has length
  zero, and the allocator's answers are usable addresses other than the initial range),
  \<open>mxbuf_put_utf8\<close> of a code point \<open>c < 0x110000\<close> returns true and appends the UTF-8
  encoding of \<open>c\<close>: 1 byte below \<open>0x80\<close>, 2 below \<open>0x800\<close>, 3 below \<open>0x10000\<close>, 4
  otherwise; for \<open>c \<ge> 0x110000\<close> it returns false and leaves buffer and heap as they
  were.  The buffer can then take the remaining bytes counted in \<open>ready\<close>, so calls chain.
  The encodings of \<open>0x41\<close>, \<open>0x20AC\<close>, \<open>0x1F600\<close> are \<open>41\<close>, \<open>E2 82 AC\<close>,
  \<open>F0 9F 98 80\<close>; the surrogate \<open>0xD800\<close> is below \<open>0x110000\<close> and is encoded like any
  other value, as \<open>ED A0 80\<close>.
\<close>

lemma mxbuf_put_utf8_encodes:
  assumes "ready clz0 (4 + k) b h" "4 + k \<le> 2 ^ 30"
  shows "(\<exists>b' h'. mxbuf_put_utf8 clz0 b h c = Some (c < 0x110000, b', h')
      \<and> ready clz0 k b' h'
      \<and> contents b' h' =
          map_option (\<lambda>cs. cs @ (if c < 0x110000 then utf8_encoding (unat c) else []))
            (contents b h)
      \<and> (if c < 0x110000 then True else b' = b \<and> h' = h))
    \<and> length (utf8_encoding (unat c)) =
          (if c < 0x80 then 1 else if c < 0x800 then 2 else if c < 0x10000 then 3 else 4)
    \<and> utf8_encoding 0x41 @ utf8_encoding 0x20AC @ utf8_encoding 0x1F600
          = [0x41, 0xE2, 0x82, 0xAC, 0xF0, 0x9F, 0x98, 0x80]
    \<and> utf8_encoding 0xD800 = [0xED, 0xA0, 0x80]"
proof -
  from put_utf8_appends [OF assms, of c]
  have "\<exists>b' h'. mxbuf_put_utf8 clz0 b h c = Some (c < 0x110000, b', h')
      \<and> ready clz0 k b' h'
      \<and> contents b' h' =
          map_option (\<lambda>cs. cs @ (if c < 0x110000 then utf8_encoding (unat c) else []))
            (contents b h)
      \<and> (if c < 0x110000 then True else b' = b \<and> h' = h)"
    by blast
  then show ?thesis
    by (simp only: utf8_encoding_length utf8_encoding_examples) simp
qed

lemma mxbuf_put_utf8_encodes_example:
  "ready 32 12 (mxbuf_create 0 0) sample_heap
   \<and> (\<exists>b1 h1 b2 h2 b3 h3 b4 h4.
         mxbuf_put_utf8 32 (mxbuf_create 0 0) sample_heap 0x41 = Some (True, b1, h1)
       \<and> mxbuf_put_utf8 32 b1 h1 0x20AC = Some (True, b2, h2)
       \<and> mxbuf_put_utf8 32 b2 h2 0x1F600 = Some (True, b3, h3)
       \<and> contents b3 h3 = Some [0x41, 0xE2, 0x82, 0xAC, 0xF0, 0x9F, 0x98, 0x80]
       \<and> mxbuf_put_utf8 32 b3 h3 0x110000 = Some (False, b4, h4)
       \<and> b4 = b3 \<and> h4 = h3)"
proof -
  have r: "ready 32 (4 + 8) (mxbuf_create 0 0) sample_heap" by code_simp
  have c0: "contents (mxbuf_create 0 0) sample_heap = Some []" by code_simp
  have lt: "(0x41::32 word) < 0x110000" "(0x20AC::32 word) < 0x110000"
    "(0x1F600::32 word) < 0x110000" "\<not> (0x110000::32 word) < 0x110000"
    by simp_all
  have u: "unat (0x41::32 word) = 0x41" "unat (0x20AC::32 word) = 0x20AC"
    "unat (0x1F600::32 word) = 0x1F600"
    by simp_all
  from mxbuf_put_utf8_encodes [OF r, of "0x41"] lt
  obtain b1 h1 where s1: "mxbuf_put_utf8 32 (mxbuf_create 0 0) sample_heap 0x41 = Some (True, b1, h1)"
      "ready 32 8 b1 h1"
      "contents b1 h1 = map_option (\<lambda>cs. cs @ utf8_encoding (unat (0x41::32 word)))
         (contents (mxbuf_create 0 0) sample_heap)"
    by auto
  from s1(2) have r1: "ready 32 (4 + 4) b1 h1" by simp
  from mxbuf_put_utf8_encodes [OF r1, of "0x20AC"] lt
  obtain b2 h2 where s2: "mxbuf_put_utf8 32 b1 h1 0x20AC = Some (True, b2, h2)"
      "ready 32 4 b2 h2"
      "contents b2 h2 = map_option (\<lambda>cs. cs @ utf8_encoding (unat (0x20AC::32 word)))
         (contents b1 h1)"
    by auto
  from s2(2) have r2: "ready 32 (4 + 0) b2 h2" by simp
  from mxbuf_put_utf8_encodes [OF r2, of "0x1F600"] lt
  obtain b3 h3 where s3: "mxbuf_put_utf8 32 b2 h2 0x1F600 = Some (True, b3, h3)"
      "contents b3 h3 = map_option (\<lambda>cs. cs @ utf8_encoding (unat (0x1F600::32 word)))
         (contents b2 h2)"
    by auto
  have e: "mxbuf_put_utf8 32 b3 h3 0x110000 = Some (False, b3, h3)"
    by (simp add: mxbuf_put_utf8_def)
  have "contents b3 h3 = Some [0x41, 0xE2, 0x82, 0xAC, 0xF0, 0x9F, 0x98, 0x80]"
    by (simp only: s3(2) s2(3) s1(3) c0 u utf8_encoding_examples) simp
  with s1(1) s2(1) s3(1) e r show ?thesis by simp
qed

text \<open>
  C6 fails on the code.  First run: on an empty buffer created over a 1-byte range,
  \<open>mxbuf_put_utf8\<close> of \<open>0x20AC\<close> returns true and leaves the contents \<open>00 82 AC\<close>, not
  \<open>E2 82 AC\<close>: the first byte goes into the caller's range, the second needs more space,
  and \<open>mxbuf_require\<close> allocates a new block without copying the byte already written,
  so the contents begin with what the new block held.  Second run: on the full
  4 GiB + 4 byte buffer \<open>mxbuf_put_utf8\<close> of \<open>0x41\<close> returns true, and the contents,
  \<open>0x100000004\<close> bytes before the call, are the 8 bytes of a new block after it.
\<close>

theorem mxbuf_put_utf8_fails:
  "do { (ok, b, h) \<leftarrow> mxbuf_put_utf8 32 (mxbuf_create 0x100 1) sample_heap 0x20AC;
        Some (contents (mxbuf_create 0x100 1) sample_heap, ok, contents b h) }
   = Some (Some [], True, Some [0x00, 0x82, 0xAC])
   \<and> utf8_encoding 0x20AC = [0xE2, 0x82, 0xAC]
   \<and> do { (n, b, h) \<leftarrow> mxbuf_write_chars 32 huge_range sample_heap 0 0x100000004;
        (ok, b', h') \<leftarrow> mxbuf_put_utf8 32 b h 0x41;
        Some (buf_inv b, owned b h, mxbuf_str b, ok, mxbuf_str b') }
   = Some (True, True, Some \<lparr>ptr = 0x1000, len = 0x100000004\<rparr>,
           True, Some \<lparr>ptr = 0x10000, len = 8\<rparr>)"
  by code_simp

text \<open>
  C1 fails on the code.  First run: a buffer over a 1-byte range takes ``ABC'' (capacity
  becomes 4), then ``DEFGHI'': the capacity becomes 8, the larger of the powers of two
  above the capacity 4 and above the request 6, which is less than the 9 bytes needed;
  \<open>mxbuf_write\<close> returns 5, not 6, and the last byte is dropped.  Second run: the same
  loss from a zero-length initial range (on a target whose \<open>__builtin_clz(0)\<close> is 32)
  with writes of 1, 1 and 3 bytes; the third returns 2.  Third run: a buffer over a 4-byte
  range takes ``ABC'' into that range, then ``DE'': the new block is allocated, not
  reallocated, so the three bytes written are not copied and the contents begin with
  what the new block held.
\<close>

theorem mxbuf_write_loses_data:
  "do { (n1, b1, h1) \<leftarrow> mxbuf_write 32 (mxbuf_create 0x100 1) sample_heap
                          \<lparr>ptr = 0x241, len = 3\<rparr>;
        (n2, b2, h2) \<leftarrow> mxbuf_write 32 b1 h1 \<lparr>ptr = 0x344, len = 6\<rparr>;
        Some (n1, contents b1 h1, len (buf b1), str_bytes (mem h1) \<lparr>ptr = 0x344, len = 6\<rparr>,
              n2, contents b2 h2, len (buf b2)) }
   = Some (3, Some [0x41, 0x42, 0x43], 4, [0x44, 0x45, 0x46, 0x47, 0x48, 0x49],
           5, Some [0x41, 0x42, 0x43, 0x44, 0x45, 0x46, 0x47, 0x48], 8)
   \<and> do { (n1, b1, h1) \<leftarrow> mxbuf_write 32 (mxbuf_create 0 0) sample_heap
                          \<lparr>ptr = 0x241, len = 1\<rparr>;
        (n2, b2, h2) \<leftarrow> mxbuf_write 32 b1 h1 \<lparr>ptr = 0x342, len = 1\<rparr>;
        (n3, b3, h3) \<leftarrow> mxbuf_write 32 b2 h2 \<lparr>ptr = 0x443, len = 3\<rparr>;
        Some (n1, n2, n3, contents b3 h3) }
   = Some (1, 1, 2, Some [0x41, 0x42, 0x43, 0x44])
   \<and> do { (n1, b1, h1) \<leftarrow> mxbuf_write 32 (mxbuf_create 0x100 4) sample_heap
                          \<lparr>ptr = 0x241, len = 3\<rparr>;
        (n2, b2, h2) \<leftarrow> mxbuf_write 32 b1 h1 \<lparr>ptr = 0x344, len = 2\<rparr>;
        Some (n1, contents b1 h1, n2, contents b2 h2) }
   = Some (3, Some [0x41, 0x42, 0x43], 2, Some [0, 1, 2, 0x44, 0x45])"
  by code_simp

end
